theory Spec2Isabelle
  imports Complex_Main "HOL-Library.AList"
begin

section \<open>Data model\<close>

text \<open>
  The wrappers of \<^verbatim>\<open>els_utils/results.py\<close> hold the object graph that
  \<^verbatim>\<open>response.json()\<close> builds from the body of an HTTP response. A body is a JSON
  text; its abstract syntax is the tree type \<open>json\<close>. Numbers are only carried through by
  the code, never computed with.
\<close>

datatype json = JNull | JBool bool | JInt int | JFloat real | JStr string
  | JArr "json list" | JObj "(string \<times> json) list"

text \<open>
  Python values. Dicts and lists are mutable objects with an identity, so they live in a
  store and a value refers to them by address; the other values are immutable. A dict
  keeps its keys in insertion order, so its content is an association list; the key
  looked up is the first one found and \<open>AList.update\<close> replaces in place or appends, as
  \<^verbatim>\<open>d[k] = v\<close> does.
\<close>

type_synonym addr = nat

datatype val = VNone | VBool bool | VInt int | VFloat real | VStr string
  | VTuple "val list" | VRef addr

datatype obj = ODict "(string \<times> val) list" | OList "val list"

text \<open>The store: the object at address \<open>a\<close> is \<open>h ! a\<close>; a new object goes to the end.\<close>

type_synonym heap = "obj list"

datatype error = KeyError | AttributeError | TypeError | JSONDecodeError | PandasUnmodelled

text \<open>
  A computation runs on a store and gives the value returned or the exception raised,
  and the store it leaves (an exception does not undo what was written before it).
\<close>

type_synonym 'a res = "(error + 'a) \<times> heap"
type_synonym 'a py = "heap \<Rightarrow> 'a res"

definition ret :: "'a \<Rightarrow> 'a py" where
  "ret x h = (Inr x, h)"

definition raise :: "error \<Rightarrow> 'a py" where
  "raise e h = (Inl e, h)"

definition seq :: "'a py \<Rightarrow> ('a \<Rightarrow> 'b py) \<Rightarrow> 'b py" where
  "seq m f h = (case m h of (Inl e, h1) \<Rightarrow> (Inl e, h1) | (Inr x, h1) \<Rightarrow> f x h1)"

subsection \<open>The Python operations the code uses\<close>

definition alloc :: "obj \<Rightarrow> heap \<Rightarrow> val \<times> heap" where
  "alloc ob h = (VRef (length h), h @ [ob])"

definition deref :: "heap \<Rightarrow> val \<Rightarrow> obj option" where
  "deref h v = (case v of VRef a \<Rightarrow> (if a < length h then Some (h ! a) else None) | _ \<Rightarrow> None)"

text \<open>\<^verbatim>\<open>[]\<close> and \<^verbatim>\<open>{}\<close>, and \<^verbatim>\<open>x.copy()\<close>: a new object each time.\<close>

definition py_new :: "obj \<Rightarrow> val py" where
  "py_new ob h = (case alloc ob h of (v, h1) \<Rightarrow> (Inr v, h1))"

definition py_copy :: "val \<Rightarrow> val py" where
  "py_copy v h = (case deref h v of Some ob \<Rightarrow> py_new ob h | None \<Rightarrow> (Inl AttributeError, h))"

text \<open>
  \<^verbatim>\<open>v.get(k, d)\<close> with a default \<open>d\<close> that is an immutable constant: only a dict has
  \<^verbatim>\<open>get\<close>.
\<close>

definition py_get :: "val \<Rightarrow> string \<Rightarrow> val \<Rightarrow> val py" where
  "py_get v k d h = (case deref h v of
       Some (ODict kvs) \<Rightarrow> (Inr (case map_of kvs k of Some x \<Rightarrow> x | None \<Rightarrow> d), h)
     | _ \<Rightarrow> (Inl AttributeError, h))"

text \<open>
  \<^verbatim>\<open>v.get(k, {})\<close> and \<^verbatim>\<open>v.get(k, [])\<close>: the attribute is looked up first, then the
  default is built (whether or not the key is there), then the key is looked up.
\<close>

definition py_get_new :: "val \<Rightarrow> string \<Rightarrow> obj \<Rightarrow> val py" where
  "py_get_new v k ob h = (case deref h v of
       Some (ODict kvs) \<Rightarrow> seq (py_new ob) (\<lambda>d. py_get v k d) h
     | _ \<Rightarrow> (Inl AttributeError, h))"

text \<open>\<^verbatim>\<open>v[k]\<close> with a string key \<open>k\<close>.\<close>

definition py_getitem :: "val \<Rightarrow> string \<Rightarrow> val py" where
  "py_getitem v k h = (case deref h v of
       Some (ODict kvs) \<Rightarrow> (case map_of kvs k of Some x \<Rightarrow> (Inr x, h) | None \<Rightarrow> (Inl KeyError, h))
     | _ \<Rightarrow> (Inl TypeError, h))"

text \<open>\<^verbatim>\<open>v[k] = x\<close> with a string key \<open>k\<close>.\<close>

definition py_setitem :: "val \<Rightarrow> string \<Rightarrow> val \<Rightarrow> unit py" where
  "py_setitem v k x h = (case v of
       VRef a \<Rightarrow> (case deref h v of
           Some (ODict kvs) \<Rightarrow> (Inr (), h[a := ODict (AList.update k x kvs)])
         | _ \<Rightarrow> (Inl TypeError, h))
     | _ \<Rightarrow> (Inl TypeError, h))"

text \<open>\<^verbatim>\<open>v.append(x)\<close>.\<close>

definition py_append :: "val \<Rightarrow> val \<Rightarrow> unit py" where
  "py_append v x h = (case v of
       VRef a \<Rightarrow> (case deref h v of
           Some (OList xs) \<Rightarrow> (Inr (), h[a := OList (xs @ [x])])
         | _ \<Rightarrow> (Inl AttributeError, h))
     | _ \<Rightarrow> (Inl AttributeError, h))"

text \<open>
  The items a \<^verbatim>\<open>for\<close> loop over \<open>v\<close> visits: the elements of a list or tuple, the
  keys of a dict, the characters of a string; the other values are not iterable. The
  loops of this code never change the object they iterate over (they write to objects
  they created themselves), so the items are those present when the loop starts.
\<close>

definition py_iter :: "val \<Rightarrow> val list py" where
  "py_iter v h = (case v of
       VStr s \<Rightarrow> (Inr (map (\<lambda>c. VStr [c]) s), h)
     | VTuple vs \<Rightarrow> (Inr vs, h)
     | VRef a \<Rightarrow> (case deref h v of
           Some (OList xs) \<Rightarrow> (Inr xs, h)
         | Some (ODict kvs) \<Rightarrow> (Inr (map (\<lambda>kv. VStr (fst kv)) kvs), h)
         | None \<Rightarrow> (Inl TypeError, h))
     | _ \<Rightarrow> (Inl TypeError, h))"

subsection \<open>The response\<close>

text \<open>
  The response object comes from the HTTP library. What the wrappers use of it is its
  status code and \<^verbatim>\<open>response.json()\<close>, which parses the body each time it is called:
  it raises when the body is not JSON (\<open>resp_body = None\<close>) and otherwise builds the objects of
  the parsed tree, children before their parent. The world is the store and the number
  of times a body has been parsed.
\<close>

record response =
  resp_status_code :: int
  resp_body :: "json option"

record world =
  objs :: heap
  json_calls :: nat

primrec alloc_json :: "json \<Rightarrow> heap \<Rightarrow> val \<times> heap"
  and alloc_list :: "json list \<Rightarrow> heap \<Rightarrow> val list \<times> heap"
  and alloc_members :: "(string \<times> json) list \<Rightarrow> heap \<Rightarrow> (string \<times> val) list \<times> heap"
  and alloc_member :: "string \<times> json \<Rightarrow> heap \<Rightarrow> (string \<times> val) \<times> heap"
where
  "alloc_json JNull h = (VNone, h)"
| "alloc_json (JBool b) h = (VBool b, h)"
| "alloc_json (JInt i) h = (VInt i, h)"
| "alloc_json (JFloat r) h = (VFloat r, h)"
| "alloc_json (JStr s) h = (VStr s, h)"
| "alloc_json (JArr ts) h = (case alloc_list ts h of (vs, h1) \<Rightarrow> alloc (OList vs) h1)"
| "alloc_json (JObj ms) h = (case alloc_members ms h of (kvs, h1) \<Rightarrow> alloc (ODict kvs) h1)"
| "alloc_list [] h = ([], h)"
| "alloc_list (t # ts) h = (case alloc_json t h of (v, h1) \<Rightarrow>
     (case alloc_list ts h1 of (vs, h2) \<Rightarrow> (v # vs, h2)))"
| "alloc_members [] h = ([], h)"
| "alloc_members (m # ms) h = (case alloc_member m h of (kv, h1) \<Rightarrow>
     (case alloc_members ms h1 of (kvs, h2) \<Rightarrow> (kv # kvs, h2)))"
| "alloc_member (k, t) h = (case alloc_json t h of (v, h1) \<Rightarrow> ((k, v), h1))"

definition response_json :: "response \<Rightarrow> world \<Rightarrow> (error + val) \<times> world" where
  "response_json r w = (case resp_body r of
       None \<Rightarrow> (Inl JSONDecodeError, w\<lparr>json_calls := json_calls w + 1\<rparr>)
     | Some t \<Rightarrow> (case alloc_json t (objs w) of
           (v, h) \<Rightarrow> (Inr v, \<lparr>objs = h, json_calls = json_calls w + 1\<rparr>)))"

text \<open>
  A value \<open>v\<close> represents the tree \<open>t\<close> in the store \<open>h\<close>: the same scalars, and at each
  array or object a list or dict whose items represent the children, in the same order
  and under the same keys.
\<close>

fun repr :: "heap \<Rightarrow> val \<Rightarrow> json \<Rightarrow> bool" where
  "repr h v JNull = (v = VNone)"
| "repr h v (JBool b) = (v = VBool b)"
| "repr h v (JInt i) = (v = VInt i)"
| "repr h v (JFloat r) = (v = VFloat r)"
| "repr h v (JStr s) = (v = VStr s)"
| "repr h v (JArr ts) = (case deref h v of
       Some (OList vs) \<Rightarrow> list_all2 (repr h) vs ts | _ \<Rightarrow> False)"
| "repr h v (JObj ms) = (case deref h v of
       Some (ODict kvs) \<Rightarrow>
         list_all2 (\<lambda>kv m. fst kv = fst m \<and> repr h (snd kv) (snd m)) kvs ms
     | _ \<Rightarrow> False)"

section \<open>SearchResults\<close>

record SearchResults =
  sr_response :: response
  sr_json :: val

definition SearchResults_init :: "response \<Rightarrow> world \<Rightarrow> (error + SearchResults) \<times> world" where
  "SearchResults_init r w = (case response_json r w of
       (Inl e, w1) \<Rightarrow> (Inl e, w1)
     | (Inr j, w1) \<Rightarrow> (Inr \<lparr>sr_response = r, sr_json = j\<rparr>, w1))"

definition status_code :: "SearchResults \<Rightarrow> int" where
  "status_code self = resp_status_code (sr_response self)"

definition raw :: "SearchResults \<Rightarrow> response" where
  "raw self = sr_response self"

definition hits :: "SearchResults \<Rightarrow> val py" where
  "hits self =
     seq (py_get_new (sr_json self) ''hits'' (ODict [])) (\<lambda>d.
     py_get_new d ''hits'' (OList []))"

definition total :: "SearchResults \<Rightarrow> val py" where
  "total self =
     seq (py_get_new (sr_json self) ''hits'' (ODict [])) (\<lambda>d.
     seq (py_get_new d ''total'' (ODict [])) (\<lambda>t.
     py_get t ''value'' (VInt 0)))"

text \<open>The comprehension \<^verbatim>\<open>[hit["_source"] for hit in ...]\<close>, filling the list \<open>out\<close>.\<close>

primrec sources_of :: "val \<Rightarrow> val list \<Rightarrow> unit py" where
  "sources_of out [] = ret ()"
| "sources_of out (hit # rest) =
     seq (py_getitem hit ''_source'') (\<lambda>src.
     seq (py_append out src) (\<lambda>_.
     sources_of out rest))"

text \<open>The loop of \<^verbatim>\<open>get_sources\<close> over the hits, filling the list \<open>results\<close>.\<close>

primrec get_sources_loop :: "bool \<Rightarrow> bool \<Rightarrow> val \<Rightarrow> val list \<Rightarrow> unit py" where
  "get_sources_loop include_id include_score results [] = ret ()"
| "get_sources_loop include_id include_score results (hit # rest) =
     seq (py_getitem hit ''_source'') (\<lambda>src.
     seq (py_copy src) (\<lambda>item.
     seq (if include_id
          then seq (py_getitem hit ''_id'') (\<lambda>x. py_setitem item ''_id'' x)
          else ret ()) (\<lambda>_.
     seq (if include_score
          then seq (py_getitem hit ''_score'') (\<lambda>x. py_setitem item ''_score'' x)
          else ret ()) (\<lambda>_.
     seq (py_append results item) (\<lambda>_.
     get_sources_loop include_id include_score results rest)))))"

definition get_sources :: "bool \<Rightarrow> bool \<Rightarrow> SearchResults \<Rightarrow> val py" where
  "get_sources include_id include_score self =
     (if \<not> include_id \<and> \<not> include_score
      then seq (hits self) (\<lambda>hs.
           seq (py_iter hs) (\<lambda>items.
           seq (py_new (OList [])) (\<lambda>out.
           seq (sources_of out items) (\<lambda>_.
           ret out))))
      else seq (py_new (OList [])) (\<lambda>results.
           seq (hits self) (\<lambda>hs.
           seq (py_iter hs) (\<lambda>items.
           seq (get_sources_loop include_id include_score results items) (\<lambda>_.
           ret results)))))"

primrec ids_of :: "val \<Rightarrow> val list \<Rightarrow> unit py" where
  "ids_of out [] = ret ()"
| "ids_of out (hit # rest) =
     seq (py_getitem hit ''_id'') (\<lambda>i.
     seq (py_append out i) (\<lambda>_.
     ids_of out rest))"

definition get_ids :: "SearchResults \<Rightarrow> val py" where
  "get_ids self =
     seq (hits self) (\<lambda>hs.
     seq (py_iter hs) (\<lambda>items.
     seq (py_new (OList [])) (\<lambda>out.
     seq (ids_of out items) (\<lambda>_.
     ret out))))"

subsection \<open>Tables\<close>

text \<open>
  Modelled from the spec: the table type of the pandas library (\<^verbatim>\<open>pd.DataFrame\<close>),
  which is not part of this repository. A table built from a sequence of mappings has
  one row per mapping and one column per key, the columns in the order the keys first
  appear; a cell is absent where the row's mapping has no such key. Projecting a table
  to a list of column names gives exactly those columns in that order, and fails with
  \<open>KeyError\<close> if a name is not a column of the table. Data that is not a list of
  mappings is outside what the spec describes (\<open>PandasUnmodelled\<close>).
\<close>

record dataframe =
  df_columns :: "string list"
  df_rows :: "val option list list"

definition first_seen :: "string list \<Rightarrow> string list" where
  "first_seen ks = rev (remdups (rev ks))"

primrec mappings_of :: "heap \<Rightarrow> val list \<Rightarrow> (string \<times> val) list list option" where
  "mappings_of h [] = Some []"
| "mappings_of h (v # vs) = (case deref h v of
       Some (ODict kvs) \<Rightarrow> map_option (\<lambda>ms. kvs # ms) (mappings_of h vs)
     | _ \<Rightarrow> None)"

definition pd_DataFrame :: "val \<Rightarrow> dataframe py" where
  "pd_DataFrame data h = (case deref h data of
       Some (OList vs) \<Rightarrow> (case mappings_of h vs of
           Some ms \<Rightarrow>
             (let cols = first_seen (concat (map (map fst) ms))
              in (Inr \<lparr>df_columns = cols,
                       df_rows = map (\<lambda>m. map (map_of m) cols) ms\<rparr>, h))
         | None \<Rightarrow> (Inl PandasUnmodelled, h))
     | _ \<Rightarrow> (Inl PandasUnmodelled, h))"

definition cell :: "string list \<Rightarrow> val option list \<Rightarrow> string \<Rightarrow> val option" where
  "cell cols row c = (case map_of (zip cols row) c of Some x \<Rightarrow> x | None \<Rightarrow> None)"

definition df_getitem :: "dataframe \<Rightarrow> string list \<Rightarrow> dataframe py" where
  "df_getitem df cs =
     (if \<forall>c \<in> set cs. c \<in> set (df_columns df)
      then ret \<lparr>df_columns = cs,
                df_rows = map (\<lambda>row. map (cell (df_columns df) row) cs) (df_rows df)\<rparr>
      else raise KeyError)"

text \<open>The truth value of \<^verbatim>\<open>columns\<close>: \<^verbatim>\<open>None\<close> and the empty list are false.\<close>

fun truthy :: "string list option \<Rightarrow> bool" where
  "truthy None = False"
| "truthy (Some []) = False"
| "truthy (Some (c # cs)) = True"

definition to_dataframe ::
  "string list option \<Rightarrow> bool \<Rightarrow> bool \<Rightarrow> SearchResults \<Rightarrow> dataframe py" where
  "to_dataframe columns include_id include_score self =
     seq (get_sources include_id include_score self) (\<lambda>data.
     seq (pd_DataFrame data) (\<lambda>df.
     if truthy columns
     then (case columns of Some cs \<Rightarrow> df_getitem df cs | None \<Rightarrow> ret df)
     else ret df))"

section \<open>ExplainResult\<close>

record ExplainResult =
  er_response :: response
  er_json :: val

definition ExplainResult_init :: "response \<Rightarrow> world \<Rightarrow> (error + ExplainResult) \<times> world" where
  "ExplainResult_init r w = (case response_json r w of
       (Inl e, w1) \<Rightarrow> (Inl e, w1)
     | (Inr j, w1) \<Rightarrow> (Inr \<lparr>er_response = r, er_json = j\<rparr>, w1))"

definition explanation :: "ExplainResult \<Rightarrow> val py" where
  "explanation self = py_get_new (er_json self) ''explanation'' (ODict [])"

definition score :: "ExplainResult \<Rightarrow> val py" where
  "score self = seq (explanation self) (\<lambda>e. py_get e ''value'' VNone)"

text \<open>
  The closure \<^verbatim>\<open>walk\<close> of \<^verbatim>\<open>get_breakdown\<close>, with the list \<open>result\<close> it captures as
  a parameter. It recurses on what it finds in the store, so it takes the number of
  nested calls it may still make and gives \<open>None\<close> when that does not suffice.
\<close>

fun walk :: "nat \<Rightarrow> val \<Rightarrow> val \<Rightarrow> int \<Rightarrow> heap \<Rightarrow> unit res option"
  and walk_each :: "nat \<Rightarrow> val \<Rightarrow> val list \<Rightarrow> int \<Rightarrow> heap \<Rightarrow> unit res option"
where
  "walk 0 result node depth h = None"
| "walk (Suc n) result node depth h =
     (case seq (py_get node ''description'' (VStr '''')) (\<lambda>desc.
           seq (py_get node ''value'' (VInt 0)) (\<lambda>val.
           seq (py_append result (VTuple [VInt depth, val, desc])) (\<lambda>_.
           seq (py_get_new node ''details'' (OList [])) (\<lambda>details.
           py_iter details)))) h
      of (Inl e, h1) \<Rightarrow> Some (Inl e, h1)
       | (Inr items, h1) \<Rightarrow> walk_each n result items (depth + 1) h1)"
| "walk_each n result [] depth h = Some (Inr (), h)"
| "walk_each n result (detail # rest) depth h =
     (case walk n result detail depth h of
        None \<Rightarrow> None
      | Some (Inl e, h1) \<Rightarrow> Some (Inl e, h1)
      | Some (Inr _, h1) \<Rightarrow> walk_each n result rest depth h1)"

definition get_breakdown :: "nat \<Rightarrow> ExplainResult \<Rightarrow> heap \<Rightarrow> val res option" where
  "get_breakdown n self h =
     (case seq (py_new (OList [])) (\<lambda>result.
           seq (explanation self) (\<lambda>expl. ret (result, expl))) h
      of (Inl e, h1) \<Rightarrow> Some (Inl e, h1)
       | (Inr (result, expl), h1) \<Rightarrow>
           (case walk n result expl 0 h1 of
              None \<Rightarrow> None
            | Some (Inl e, h2) \<Rightarrow> Some (Inl e, h2)
            | Some (Inr _, h2) \<Rightarrow> Some (Inr result, h2)))"

section \<open>Notions used to state the properties\<close>

subsection \<open>Reading a JSON tree\<close>

fun jget :: "json \<Rightarrow> string \<Rightarrow> json option" where
  "jget (JObj ms) k = map_of ms k"
| "jget _ k = None"

fun is_obj :: "json \<Rightarrow> bool" where
  "is_obj (JObj ms) = True"
| "is_obj _ = False"

definition field_or :: "json \<Rightarrow> string \<Rightarrow> json \<Rightarrow> json" where
  "field_or t k d = (case jget t k of Some x \<Rightarrow> x | None \<Rightarrow> d)"

subsection \<open>Paths and hits\<close>

text \<open>
  \<open>jpath t ks\<close> follows the keys \<open>ks\<close> from \<open>t\<close> down through nested objects: it
  is the value at that path, if there is one. When there is none, the chain of lookups
  stops in one of two ways. \<open>missing_key t ks\<close>: it reaches an object that does not have
  the next key. \<open>not_mapping_on t ks\<close>: it reaches a value that is not an object (a
  number, a string, an array, null) and that the next key would have to be looked up in.
\<close>

fun jpath :: "json \<Rightarrow> string list \<Rightarrow> json option" where
  "jpath t [] = Some t"
| "jpath t (k # ks) = (case jget t k of None \<Rightarrow> None | Some c \<Rightarrow> jpath c ks)"

fun missing_key :: "json \<Rightarrow> string list \<Rightarrow> bool" where
  "missing_key t [] = False"
| "missing_key t (k # ks) =
     (is_obj t \<and> (case jget t k of None \<Rightarrow> True | Some c \<Rightarrow> missing_key c ks))"

fun not_mapping_on :: "json \<Rightarrow> string list \<Rightarrow> bool" where
  "not_mapping_on t [] = False"
| "not_mapping_on t (k # ks) =
     (\<not> is_obj t \<or> (case jget t k of None \<Rightarrow> False | Some c \<Rightarrow> not_mapping_on c ks))"

text \<open>
  The mapping \<^verbatim>\<open>get_sources\<close> is to return for a hit when a flag is set: the fields
  of the hit's source mapping, with the hit's \<^verbatim>\<open>_id\<close> and \<^verbatim>\<open>_score\<close> merged in
  under those keys as the flags say.
\<close>

definition merge_key :: "bool \<Rightarrow> string \<Rightarrow> json \<Rightarrow> (string \<times> json) list \<Rightarrow> (string \<times> json) list option"
  where
  "merge_key flag k hit sm =
     (if flag then map_option (\<lambda>x. AList.update k x sm) (jget hit k) else Some sm)"

definition source_with :: "bool \<Rightarrow> bool \<Rightarrow> json \<Rightarrow> json option" where
  "source_with include_id include_score hit = (case jget hit ''_source'' of
       Some (JObj sm) \<Rightarrow> (case merge_key include_id ''_id'' hit sm of
           None \<Rightarrow> None
         | Some sm1 \<Rightarrow> map_option JObj (merge_key include_score ''_score'' hit sm1))
     | _ \<Rightarrow> None)"

text \<open>
  What \<^verbatim>\<open>get_sources\<close> reads of a hit with subscripts: \<^verbatim>\<open>_source\<close> always, and
  \<^verbatim>\<open>_id\<close> and \<^verbatim>\<open>_score\<close> when the flag is set. \<open>reads_ok\<close>: the hit has all of it
  (and, when a flag is set, the source is a mapping that the field can be merged into).
  \<open>lacks\<close>: the hit is a mapping that has no \<^verbatim>\<open>_source\<close>, or that has a mapping as
  \<^verbatim>\<open>_source\<close> but not the \<^verbatim>\<open>_id\<close> or the \<^verbatim>\<open>_score\<close> that a flag makes the code
  read. (A \<^verbatim>\<open>_source\<close> that is not a mapping is no case of \<open>lacks\<close>: with a flag
  set the code calls \<^verbatim>\<open>copy()\<close> on it before it reads the other keys.)
\<close>

definition reads_ok :: "bool \<Rightarrow> bool \<Rightarrow> json \<Rightarrow> bool" where
  "reads_ok include_id include_score hit =
     (if include_id \<or> include_score
      then source_with include_id include_score hit \<noteq> None
      else jget hit ''_source'' \<noteq> None)"

definition lacks :: "bool \<Rightarrow> bool \<Rightarrow> json \<Rightarrow> bool" where
  "lacks include_id include_score hit =
     (is_obj hit \<and> (case jget hit ''_source'' of
         None \<Rightarrow> True
       | Some (JObj sm) \<Rightarrow> (include_id \<and> jget hit ''_id'' = None) \<or>
                           (include_score \<and> jget hit ''_score'' = None)
       | Some _ \<Rightarrow> False))"

text \<open>The addresses \<open>a\<close>, \<open>a + 1\<close>, ... of \<open>n\<close> objects created one after the other.\<close>

fun refs_from :: "addr \<Rightarrow> nat \<Rightarrow> val list" where
  "refs_from a 0 = []"
| "refs_from a (Suc n) = VRef a # refs_from (Suc a) n"

abbreviation members_repr :: "heap \<Rightarrow> (string \<times> val) list \<Rightarrow> (string \<times> json) list \<Rightarrow> bool" where
  "members_repr h kvs ms \<equiv> list_all2 (\<lambda>kv m. fst kv = fst m \<and> repr h (snd kv) (snd m)) kvs ms"

subsection \<open>Explanation trees and their pre-order traversal\<close>

text \<open>
  An explanation node is a JSON object; its children are the elements of the array under
  \<^verbatim>\<open>details\<close>, and it is a leaf when it has no such key. \<open>node_ok\<close> holds of the trees
  all of whose nodes are of this shape. \<open>preorder\<close> is the traversal as the spec words
  it: the node first, at its depth, with 0 and the empty string for a missing value or
  description, then the children in their order, one level deeper. \<open>height\<close> is the
  number of nodes on the longest path from the root.
\<close>

definition details_of :: "json \<Rightarrow> json list" where
  "details_of t = (case jget t ''details'' of Some (JArr ts) \<Rightarrow> ts | _ \<Rightarrow> [])"

definition details_ok :: "json \<Rightarrow> bool" where
  "details_ok t = (case jget t ''details'' of
       None \<Rightarrow> True | Some (JArr ts) \<Rightarrow> True | Some _ \<Rightarrow> False)"

function (sequential) node_ok :: "json \<Rightarrow> bool" where
  "node_ok (JObj ms) = (details_ok (JObj ms) \<and> list_all node_ok (details_of (JObj ms)))"
| "node_ok _ = False"
  by pat_completeness auto
termination
proof (relation "measure size")
  fix ms and c :: json
  assume c: "c \<in> set (details_of (JObj ms))"
  have mem: "size v < Suc (size_list (size_prod (\<lambda>_. 0) size) ms)"
    if "Some v = map_of ms k" for ms :: "(string \<times> json) list" and k v
    using that [symmetric] by (induction ms) (auto split: if_splits)
  have el: "size c < Suc (size_list size ts)" if "c \<in> set ts" for ts
    using that by (induction ts) auto
  from c show "(c, JObj ms) \<in> measure size"
    by (auto simp: details_of_def split: option.splits json.splits dest!: mem el)
qed simp

function (sequential) preorder :: "nat \<Rightarrow> json \<Rightarrow> (nat \<times> json \<times> json) list" where
  "preorder d (JObj ms) =
     (d, field_or (JObj ms) ''value'' (JInt 0), field_or (JObj ms) ''description'' (JStr ''''))
     # concat (map (preorder (Suc d)) (details_of (JObj ms)))"
| "preorder d t = [(d, JInt 0, JStr '''')]"
  by pat_completeness auto
termination
proof (relation "measure (\<lambda>p. size (snd p))")
  fix d :: nat and ms and c :: json
  assume c: "c \<in> set (details_of (JObj ms))"
  have mem: "size v < Suc (size_list (size_prod (\<lambda>_. 0) size) ms)"
    if "Some v = map_of ms k" for ms :: "(string \<times> json) list" and k v
    using that [symmetric] by (induction ms) (auto split: if_splits)
  have el: "size c < Suc (size_list size ts)" if "c \<in> set ts" for ts
    using that by (induction ts) auto
  from c show "((Suc d, c), (d, JObj ms)) \<in> measure (\<lambda>p. size (snd p))"
    by (auto simp: details_of_def split: option.splits json.splits dest!: mem el)
qed simp

function (sequential) height :: "json \<Rightarrow> nat" where
  "height (JObj ms) = Suc (foldr max (map height (details_of (JObj ms))) 0)"
| "height t = Suc 0"
  by pat_completeness auto
termination
proof (relation "measure size")
  fix ms and c :: json
  assume c: "c \<in> set (details_of (JObj ms))"
  have mem: "size v < Suc (size_list (size_prod (\<lambda>_. 0) size) ms)"
    if "Some v = map_of ms k" for ms :: "(string \<times> json) list" and k v
    using that [symmetric] by (induction ms) (auto split: if_splits)
  have el: "size c < Suc (size_list size ts)" if "c \<in> set ts" for ts
    using that by (induction ts) auto
  from c show "(c, JObj ms) \<in> measure size"
    by (auto simp: details_of_def split: option.splits json.splits dest!: mem el)
qed simp

text \<open>A row of the breakdown, the tuple \<^verbatim>\<open>(depth, val, desc)\<close>, against a row of the traversal.\<close>

fun row_repr :: "heap \<Rightarrow> val \<Rightarrow> nat \<times> json \<times> json \<Rightarrow> bool" where
  "row_repr h (VTuple [VInt i, x, y]) (d, tv, td) = (i = int d \<and> repr h x tv \<and> repr h y td)"
| "row_repr h v r = False"

subsection \<open>What a computation leaves untouched\<close>

text \<open>
  \<open>keeps n h h'\<close>: the store \<open>h'\<close> has every object of \<open>h\<close>, and the objects below address
  \<open>n\<close> are the same in both. \<open>triple n c Q\<close>: run on a store with at least \<open>n\<close> objects,
  the computation \<open>c\<close> keeps the objects below \<open>n\<close>, and a value it returns satisfies \<open>Q\<close>.
\<close>

definition keeps :: "nat \<Rightarrow> heap \<Rightarrow> heap \<Rightarrow> bool" where
  "keeps n h h' \<longleftrightarrow> length h \<le> length h' \<and> take n h' = take n h"

definition fresh_ref :: "nat \<Rightarrow> val \<Rightarrow> bool" where
  "fresh_ref n v = (case v of VRef a \<Rightarrow> n \<le> a | _ \<Rightarrow> False)"

definition triple :: "nat \<Rightarrow> 'a py \<Rightarrow> ('a \<Rightarrow> bool) \<Rightarrow> bool" where
  "triple n c Q \<longleftrightarrow>
     (\<forall>h r h'. n \<le> length h \<longrightarrow> c h = (r, h') \<longrightarrow>
        keeps n h h' \<and> (\<forall>x. r = Inr x \<longrightarrow> Q x))"

subsection \<open>The rows a walk adds\<close>

text \<open>
  What \<open>walk\<close> does, read off a store \<open>hb\<close> that it does not write to: the rows it appends
  to \<open>result\<close>, the number of empty default lists it creates, and the exception that
  stops it, if any.
\<close>

fun walk_rows :: "nat \<Rightarrow> heap \<Rightarrow> val \<Rightarrow> int \<Rightarrow> (val list \<times> nat \<times> error option) option"
  and walk_rows_each ::
    "nat \<Rightarrow> heap \<Rightarrow> val list \<Rightarrow> int \<Rightarrow> (val list \<times> nat \<times> error option) option"
where
  "walk_rows 0 hb node depth = None"
| "walk_rows (Suc n) hb node depth = (case deref hb node of
       Some (ODict kvs) \<Rightarrow>
         (let row = VTuple [VInt depth,
                     (case map_of kvs ''value'' of Some x \<Rightarrow> x | None \<Rightarrow> VInt 0),
                     (case map_of kvs ''description'' of Some x \<Rightarrow> x | None \<Rightarrow> VStr '''')]
          in case (case map_of kvs ''details'' of
                     Some ds \<Rightarrow> fst (py_iter ds hb) | None \<Rightarrow> Inr [])
             of Inl e \<Rightarrow> Some ([row], 1, Some e)
              | Inr items \<Rightarrow> (case walk_rows_each n hb items (depth + 1) of
                    None \<Rightarrow> None
                  | Some (rs, k, eo) \<Rightarrow> Some (row # rs, Suc k, eo)))
     | _ \<Rightarrow> Some ([], 0, Some AttributeError))"
| "walk_rows_each n hb [] depth = Some ([], 0, None)"
| "walk_rows_each n hb (x # xs) depth = (case walk_rows n hb x depth of
       None \<Rightarrow> None
     | Some (rs, k, Some e) \<Rightarrow> Some (rs, k, Some e)
     | Some (rs, k, None) \<Rightarrow> (case walk_rows_each n hb xs depth of
           None \<Rightarrow> None
         | Some (rs', k', eo) \<Rightarrow> Some (rs @ rs', k + k', eo)))"

definition walk_outcome ::
  "heap \<Rightarrow> heap \<Rightarrow> nat \<Rightarrow> val list \<Rightarrow> val list \<times> nat \<times> error option \<Rightarrow> unit res" where
  "walk_outcome hb X i xs out = (case out of (rs, k, eo) \<Rightarrow>
     ((case eo of None \<Rightarrow> Inr () | Some e \<Rightarrow> Inl e),
      hb @ X[i := OList (xs @ rs)] @ replicate k (OList [])))"

subsection \<open>Sequences of calls\<close>

text \<open>
  The calls a client can make on a \<^verbatim>\<open>SearchResults\<close> and an \<^verbatim>\<open>ExplainResult\<close> that
  live in one store. \<open>perform\<close> gives the store after a call, whether it returned or
  raised (\<open>None\<close> when the walk of \<^verbatim>\<open>get_breakdown\<close> was not given enough nested calls);
  \<open>run_calls\<close> makes the calls one after the other.
\<close>

datatype call = GetSources bool bool | GetIds | Total | Hits
  | ToDataframe "string list option" bool bool | GetBreakdown nat

fun perform :: "SearchResults \<Rightarrow> ExplainResult \<Rightarrow> call \<Rightarrow> heap \<Rightarrow> heap option" where
  "perform sr er (GetSources include_id include_score) h =
     Some (snd (get_sources include_id include_score sr h))"
| "perform sr er GetIds h = Some (snd (get_ids sr h))"
| "perform sr er Total h = Some (snd (total sr h))"
| "perform sr er Hits h = Some (snd (hits sr h))"
| "perform sr er (ToDataframe columns include_id include_score) h =
     Some (snd (to_dataframe columns include_id include_score sr h))"
| "perform sr er (GetBreakdown n) h = map_option snd (get_breakdown n er h)"

fun run_calls :: "SearchResults \<Rightarrow> ExplainResult \<Rightarrow> call list \<Rightarrow> heap \<Rightarrow> heap option" where
  "run_calls sr er [] h = Some h"
| "run_calls sr er (c # cs) h = (case perform sr er c h of
       None \<Rightarrow> None
     | Some h1 \<Rightarrow> run_calls sr er cs h1)"

section \<open>Example responses\<close>

text \<open>
  The store and the wrapper that the constructors give for a response with body \<open>t\<close>,
  starting from the empty store.
\<close>

definition store_of :: "json \<Rightarrow> heap" where
  "store_of t = snd (alloc_json t [])"

definition root_of :: "json \<Rightarrow> val" where
  "root_of t = fst (alloc_json t [])"

definition ok_response :: "json \<Rightarrow> response" where
  "ok_response t = \<lparr>resp_status_code = 200, resp_body = Some t\<rparr>"

definition wrap_search :: "json \<Rightarrow> SearchResults" where
  "wrap_search t = \<lparr>sr_response = ok_response t, sr_json = root_of t\<rparr>"

definition wrap_explain :: "json \<Rightarrow> ExplainResult" where
  "wrap_explain t = \<lparr>er_response = ok_response t, er_json = root_of t\<rparr>"

text \<open>The explanation tree of the spec's example.\<close>

definition ex_tree :: json where
  "ex_tree = JObj [(''value'', JInt 10), (''description'', JStr ''root''), (''details'',
     JArr [JObj [(''value'', JInt 4), (''description'', JStr ''a'')],
           JObj [(''value'', JInt 6), (''description'', JStr ''b''), (''details'',
             JArr [JObj [(''value'', JInt 6), (''description'', JStr ''c'')]])]])]"

definition ex_body :: json where
  "ex_body = JObj [(''explanation'', ex_tree)]"

text \<open>A search response with two hits; the source of the first has an \<^verbatim>\<open>_id\<close> field of its own.\<close>

definition ex_hit_list :: "json list" where
  "ex_hit_list =
    [JObj [(''_id'', JStr ''x1''), (''_score'', JInt 3),
           (''_source'', JObj [(''a'', JInt 1), (''_id'', JStr ''old'')])],
     JObj [(''_id'', JStr ''x2''), (''_score'', JInt 2),
           (''_source'', JObj [(''b'', JInt 5)])]]"

definition ex_hits :: json where
  "ex_hits = JObj [(''hits'', JObj [(''total'', JObj [(''value'', JInt 2)]),
                                    (''hits'', JArr ex_hit_list)])]"

text \<open>
  Three sparse responses: a body with none of the keys the wrappers look up, a search
  response whose only hit record is empty, and an explanation whose nodes have neither
  value nor description.
\<close>

definition ex_empty :: json where
  "ex_empty = JObj [(''took'', JInt 3)]"

definition ex_bare :: json where
  "ex_bare = JObj [(''hits'', JObj [(''hits'', JArr [JObj []])])]"

definition ex_sparse :: json where
  "ex_sparse = JObj [(''explanation'', JObj [(''details'', JArr [JObj []])])]"

text \<open>
  Responses in which a key is there with a value that is not a mapping: the total of the
  older response format, a null \<^verbatim>\<open>hits\<close>, a hit without \<^verbatim>\<open>_id\<close> whose source is
  a string, and an explanation that is a number.
\<close>

definition ex_plain_total :: json where
  "ex_plain_total = JObj [(''hits'', JObj [(''total'', JInt 5)])]"

definition ex_null_hits :: json where
  "ex_null_hits = JObj [(''hits'', JNull)]"

definition ex_text_source :: json where
  "ex_text_source = JObj [(''hits'', JObj [(''hits'', JArr [JObj [(''_source'', JStr ''s'')]])])]"

definition ex_plain_explanation :: json where
  "ex_plain_explanation = JObj [(''explanation'', JInt 5)]"

text \<open>Two hits, of which the second has no \<^verbatim>\<open>_id\<close>.\<close>

definition ex_hit_ok :: json where
  "ex_hit_ok = JObj [(''_id'', JStr ''a''), (''_score'', JInt 1), (''_source'', JObj [(''x'', JInt 7)])]"

definition ex_hit_anon :: json where
  "ex_hit_anon = JObj [(''_source'', JObj [(''x'', JInt 8)])]"

definition ex_second_anon :: json where
  "ex_second_anon = JObj [(''hits'', JObj [(''hits'', JArr [ex_hit_ok, ex_hit_anon])])]"

text \<open>The store after a first \<^verbatim>\<open>get_breakdown()\<close> on the example.\<close>

definition ex_after :: heap where
  "ex_after = (case get_breakdown 3 (wrap_explain ex_body) (store_of ex_body) of
       Some (r, h1) \<Rightarrow> h1 | None \<Rightarrow> [])"

section \<open>Every operation writes only to objects it created\<close>

lemma keeps_refl: "keeps n h h"
  by (simp add: keeps_def)

lemma keeps_trans: "keeps n h h1 \<Longrightarrow> keeps n h1 h2 \<Longrightarrow> keeps n h h2"
  by (simp add: keeps_def)

lemma keeps_append: "n \<le> length h \<Longrightarrow> keeps n h (h @ zs)"
  by (simp add: keeps_def)

lemma keeps_update: "n \<le> a \<Longrightarrow> keeps n h (h[a := ob])"
  by (simp add: keeps_def)

lemma keeps_length: "n \<le> length h \<Longrightarrow> keeps n h h' \<Longrightarrow> n \<le> length h'"
  by (simp add: keeps_def)

lemma triple_ret: "Q x \<Longrightarrow> triple n (ret x) Q"
  by (simp add: triple_def ret_def keeps_refl)

lemma triple_raise: "triple n (raise e) Q"
  by (simp add: triple_def raise_def keeps_refl)

lemma triple_seq:
  assumes m: "triple n m Q" and f: "\<And>x. Q x \<Longrightarrow> triple n (f x) Q'"
  shows "triple n (seq m f) Q'"
  unfolding triple_def
proof (intro allI impI)
  fix h r h'
  assume n: "n \<le> length h" and run: "seq m f h = (r, h')"
  obtain r1 h1 where m1: "m h = (r1, h1)" by (cases "m h")
  from m n m1 have k1: "keeps n h h1" and q: "\<And>x. r1 = Inr x \<Longrightarrow> Q x"
    by (auto simp: triple_def)
  show "keeps n h h' \<and> (\<forall>x. r = Inr x \<longrightarrow> Q' x)"
  proof (cases r1)
    case (Inl e)
    with run m1 k1 show ?thesis by (auto simp: seq_def)
  next
    case (Inr x)
    with run m1 have fx: "f x h1 = (r, h')" by (simp add: seq_def)
    from f [OF q [OF Inr]] keeps_length [OF n k1] fx
    have "keeps n h1 h' \<and> (\<forall>y. r = Inr y \<longrightarrow> Q' y)" by (auto simp: triple_def)
    with k1 show ?thesis by (blast intro: keeps_trans)
  qed
qed

lemma triple_if: "(b \<Longrightarrow> triple n c Q) \<Longrightarrow> (\<not> b \<Longrightarrow> triple n d Q) \<Longrightarrow> triple n (if b then c else d) Q"
  by simp

lemma triple_new: "triple n (py_new ob) (fresh_ref n)"
  by (auto simp: triple_def py_new_def alloc_def fresh_ref_def keeps_append)

lemma triple_copy: "triple n (py_copy v) (fresh_ref n)"
  using triple_new [of n]
  by (auto simp: triple_def py_copy_def keeps_refl split: option.splits)

lemma triple_get: "triple n (py_get v k d) (\<lambda>_. True)"
  by (auto simp: triple_def py_get_def keeps_refl split: option.splits obj.splits)

lemma triple_getitem: "triple n (py_getitem v k) (\<lambda>_. True)"
  by (auto simp: triple_def py_getitem_def keeps_refl split: option.splits obj.splits)

lemma triple_iter: "triple n (py_iter v) (\<lambda>_. True)"
  by (auto simp: triple_def py_iter_def keeps_refl split: option.splits obj.splits val.splits)

lemma triple_get_new: "triple n (py_get_new v k ob) (\<lambda>_. True)"
  unfolding py_get_new_def
  apply (auto simp: triple_def keeps_refl split: option.splits obj.splits)
  using triple_seq [OF triple_new, of n "\<lambda>d. py_get v k d" "\<lambda>_. True" ob] triple_get
   apply (auto simp: triple_def)
  done

lemma triple_setitem: "fresh_ref n v \<Longrightarrow> triple n (py_setitem v k x) (\<lambda>_. True)"
  by (auto simp: triple_def py_setitem_def fresh_ref_def keeps_refl keeps_update
      split: option.splits obj.splits val.splits)

lemma triple_append: "fresh_ref n v \<Longrightarrow> triple n (py_append v x) (\<lambda>_. True)"
  by (auto simp: triple_def py_append_def fresh_ref_def keeps_refl keeps_update
      split: option.splits obj.splits val.splits)

lemma triple_hits: "triple n (hits self) (\<lambda>_. True)"
  unfolding hits_def by (intro triple_seq [where Q = "\<lambda>_. True"] triple_get_new)

lemma triple_total: "triple n (total self) (\<lambda>_. True)"
  unfolding total_def by (intro triple_seq [where Q = "\<lambda>_. True"] triple_get_new triple_get)

lemma triple_sources_of: "fresh_ref n out \<Longrightarrow> triple n (sources_of out items) (\<lambda>_. True)"
  by (induction items)
    (auto intro!: triple_ret triple_seq [where Q = "\<lambda>_. True"] triple_getitem triple_append)

lemma triple_ids_of: "fresh_ref n out \<Longrightarrow> triple n (ids_of out items) (\<lambda>_. True)"
  by (induction items)
    (auto intro!: triple_ret triple_seq [where Q = "\<lambda>_. True"] triple_getitem triple_append)

lemma triple_get_sources_loop:
  "fresh_ref n results \<Longrightarrow> triple n (get_sources_loop iid isc results items) (\<lambda>_. True)"
proof (induction items)
  case Nil
  show ?case by (simp add: triple_ret)
next
  case (Cons hit rest)
  have set_id: "\<And>item k. fresh_ref n item \<Longrightarrow>
      triple n (seq (py_getitem hit k) (\<lambda>x. py_setitem item k x)) (\<lambda>_. True)"
    by (intro triple_seq [where Q = "\<lambda>_. True"] triple_getitem triple_setitem)
  show ?case
    unfolding get_sources_loop.simps
    apply (rule triple_seq [OF triple_getitem])
    apply (rule triple_seq [OF triple_copy])
    apply (rule triple_seq [where Q = "\<lambda>_. True"])
     apply (rule triple_if)
      apply (erule set_id)
     apply (simp add: triple_ret)
    apply (rule triple_seq [where Q = "\<lambda>_. True"])
     apply (rule triple_if)
      apply (erule set_id)
     apply (simp add: triple_ret)
    apply (rule triple_seq [where Q = "\<lambda>_. True"])
     apply (rule triple_append [OF Cons.prems])
    apply (rule Cons.IH [OF Cons.prems])
    done
qed

lemma triple_get_sources: "triple n (get_sources iid isc self) (fresh_ref n)"
  unfolding get_sources_def
  apply (rule triple_if)
   apply (rule triple_seq [OF triple_hits])
   apply (rule triple_seq [OF triple_iter])
   apply (rule triple_seq [OF triple_new])
   apply (rule triple_seq [where Q = "\<lambda>_. True"])
    apply (erule triple_sources_of)
   apply (erule triple_ret)
  apply (rule triple_seq [OF triple_new])
  apply (rule triple_seq [OF triple_hits])
  apply (rule triple_seq [OF triple_iter])
  apply (rule triple_seq [where Q = "\<lambda>_. True"])
   apply (erule triple_get_sources_loop)
  apply (erule triple_ret)
  done

lemma triple_get_ids: "triple n (get_ids self) (fresh_ref n)"
  unfolding get_ids_def
  apply (rule triple_seq [OF triple_hits])
  apply (rule triple_seq [OF triple_iter])
  apply (rule triple_seq [OF triple_new])
  apply (rule triple_seq [where Q = "\<lambda>_. True"])
   apply (erule triple_ids_of)
  apply (erule triple_ret)
  done

lemma triple_DataFrame: "triple n (pd_DataFrame data) (\<lambda>_. True)"
  by (auto simp: triple_def pd_DataFrame_def keeps_refl Let_def split: option.splits obj.splits)

lemma triple_df_getitem: "triple n (df_getitem df cs) (\<lambda>_. True)"
  unfolding df_getitem_def by (intro triple_if triple_ret triple_raise) simp

lemma triple_to_dataframe: "triple n (to_dataframe columns iid isc self) (\<lambda>_. True)"
  unfolding to_dataframe_def
  apply (rule triple_seq [OF triple_get_sources])
  apply (rule triple_seq [OF triple_DataFrame])
  apply (rule triple_if)
   apply (cases columns)
    apply (simp_all add: triple_ret triple_df_getitem)
  done

lemma triple_walk_step:
  "fresh_ref m result \<Longrightarrow>
   triple m (seq (py_get node ''description'' (VStr '''')) (\<lambda>desc.
             seq (py_get node ''value'' (VInt 0)) (\<lambda>val.
             seq (py_append result (VTuple [VInt depth, val, desc])) (\<lambda>_.
             seq (py_get_new node ''details'' (OList [])) (\<lambda>details.
             py_iter details))))) (\<lambda>_. True)"
  by (intro triple_seq [where Q = "\<lambda>_. True"] triple_get triple_append triple_get_new triple_iter)

lemma walk_keeps:
  "fresh_ref m result \<Longrightarrow> m \<le> length h \<Longrightarrow>
     walk n result node depth h = Some (r, h') \<Longrightarrow> keeps m h h'"
  "fresh_ref m result \<Longrightarrow> m \<le> length h \<Longrightarrow>
     walk_each n result items depth h = Some (r, h') \<Longrightarrow> keeps m h h'"
proof (induction n result node depth h and n result items depth h
    arbitrary: r h' and r h' rule: walk_walk_each.induct)
  case (1 result node depth h)
  then show ?case by simp
next
  case (2 n result node depth h)
  let ?c = "seq (py_get node ''description'' (VStr '''')) (\<lambda>desc.
             seq (py_get node ''value'' (VInt 0)) (\<lambda>val.
             seq (py_append result (VTuple [VInt depth, val, desc])) (\<lambda>_.
             seq (py_get_new node ''details'' (OList [])) (\<lambda>details.
             py_iter details))))"
  obtain r1 h1 where c: "?c h = (r1, h1)" by (cases "?c h")
  from triple_walk_step [OF "2.prems"(1), of node depth] "2.prems"(2) c
  have k1: "keeps m h h1" by (auto simp: triple_def)
  show ?case
  proof (cases r1)
    case (Inl e)
    with "2.prems"(3) c k1 show ?thesis by simp
  next
    case (Inr items)
    with "2.prems"(3) c have "walk_each n result items (depth + 1) h1 = Some (r, h')" by simp
    from "2.IH" [OF c [symmetric] Inr "2.prems"(1) keeps_length [OF "2.prems"(2) k1] this] k1
    show ?thesis by (blast intro: keeps_trans)
  qed
next
  case (3 n result depth h)
  then show ?case by (simp add: keeps_refl)
next
  case (4 n result detail rest depth h)
  show ?case
  proof (cases "walk n result detail depth h")
    case None
    with "4.prems"(3) show ?thesis by simp
  next
    case (Some p)
    obtain r1 h1 where p: "p = (r1, h1)" by (cases p)
    from "4.IH"(1) [OF "4.prems"(1,2)] Some p have k1: "keeps m h h1" by simp
    show ?thesis
    proof (cases r1)
      case (Inl e)
      with "4.prems"(3) Some p k1 show ?thesis by simp
    next
      case (Inr u)
      with "4.prems"(3) Some p have "walk_each n result rest depth h1 = Some (r, h')" by simp
      from "4.IH"(2) [OF Some p [symmetric] Inr "4.prems"(1) keeps_length [OF "4.prems"(2) k1] this] k1
      show ?thesis by (blast intro: keeps_trans)
    qed
  qed
qed

lemma triple_explanation: "triple n (explanation self) (\<lambda>_. True)"
  unfolding explanation_def by (rule triple_get_new)

lemma get_breakdown_keeps:
  assumes run: "get_breakdown n self h = Some (r, h')"
  shows "keeps (length h) h h' \<and> (\<forall>v. r = Inr v \<longrightarrow> v = VRef (length h))"
proof -
  let ?c = "seq (py_new (OList [])) (\<lambda>result.
           seq (explanation self) (\<lambda>expl. ret (result, expl)))"
  obtain r1 h1 where c: "?c h = (r1, h1)" by (cases "?c h")
  have new: "triple (length h) (py_new (OList [])) (fresh_ref (length h))"
    by (rule triple_new)
  have "triple (length h) ?c (\<lambda>p. fresh_ref (length h) (fst p))"
    by (intro triple_seq [OF new] triple_seq [OF triple_explanation] triple_ret) simp
  with c have k1: "keeps (length h) h h1"
    and f1: "\<And>p. r1 = Inr p \<Longrightarrow> fresh_ref (length h) (fst p)"
    by (auto simp: triple_def)
  have v1: "fst p = VRef (length h)" if "r1 = Inr p" for p
    using c that
    by (auto simp: seq_def py_new_def alloc_def ret_def split: prod.splits sum.splits)
  show ?thesis
  proof (cases r1)
    case (Inl e)
    with run c k1 show ?thesis by (auto simp: get_breakdown_def)
  next
    case (Inr p)
    obtain result expl where p: "p = (result, expl)" by (cases p)
    from f1 [OF Inr] p have fr: "fresh_ref (length h) result" by simp
    from v1 [OF Inr] p have res: "result = VRef (length h)" by simp
    from keeps_length [OF _ k1] have len: "length h \<le> length h1" by simp
    show ?thesis
    proof (cases "walk n result expl 0 h1")
      case None
      with run c Inr p show ?thesis by (simp add: get_breakdown_def)
    next
      case (Some q)
      obtain r2 h2 where q: "q = (r2, h2)" by (cases q)
      from walk_keeps(1) [OF fr len] Some q have k2: "keeps (length h) h1 h2" by simp
      from run c Inr p Some q have "h' = h2" and "\<And>v. r = Inr v \<Longrightarrow> v = result"
        by (auto simp: get_breakdown_def split: sum.splits)
      with k1 k2 res show ?thesis by (blast intro: keeps_trans)
    qed
  qed
qed

section \<open>Reading from a store that has grown\<close>

lemma deref_append: "deref h v = Some ob \<Longrightarrow> deref (h @ X) v = Some ob"
  by (auto simp: deref_def nth_append split: val.splits if_splits)

lemma deref_fresh: "deref (h @ ob # X) (VRef (length h)) = Some ob"
  by (simp add: deref_def)

lemma repr_deref: "repr hb v t \<Longrightarrow> deref (hb @ X) v = deref hb v"
  by (cases t; cases v) (auto simp: deref_def nth_append split: if_splits)

lemma repr_append: "repr h v t \<Longrightarrow> repr (h @ X) v t"
proof (induction h v t rule: repr.induct)
  case (6 h v ts)
  then obtain vs where d: "deref h v = Some (OList vs)" and l: "list_all2 (repr h) vs ts"
    by (auto split: option.splits obj.splits)
  from l "6.IH" [OF d refl] have "list_all2 (repr (h @ X)) vs ts"
    by (auto simp: list_all2_conv_all_nth)
  with deref_append [OF d] show ?case by simp
next
  case (7 h v ms)
  then obtain kvs where d: "deref h v = Some (ODict kvs)"
    and l: "list_all2 (\<lambda>kv m. fst kv = fst m \<and> repr h (snd kv) (snd m)) kvs ms"
    by (auto split: option.splits obj.splits)
  from l "7.IH" [OF d refl]
  have "list_all2 (\<lambda>kv m. fst kv = fst m \<and> repr (h @ X) (snd kv) (snd m)) kvs ms"
    by (auto simp: list_all2_conv_all_nth)
  with deref_append [OF d] show ?case by simp
qed simp_all

lemma repr_obj:
  "repr h v (JObj ms) \<Longrightarrow>
     \<exists>kvs. deref h v = Some (ODict kvs) \<and>
       list_all2 (\<lambda>kv m. fst kv = fst m \<and> repr h (snd kv) (snd m)) kvs ms"
  by (auto split: option.splits obj.splits)

lemma repr_arr:
  "repr h v (JArr ts) \<Longrightarrow> \<exists>vs. deref h v = Some (OList vs) \<and> list_all2 (repr h) vs ts"
  by (auto split: option.splits obj.splits)

lemma members_lookup:
  "list_all2 (\<lambda>kv m. fst kv = fst m \<and> P (snd kv) (snd m)) kvs ms \<Longrightarrow>
     rel_option P (map_of kvs k) (map_of ms k)"
  by (induction kvs ms rule: list_all2_induct) auto

lemma repr_not_obj:
  "repr h v t \<Longrightarrow> \<not> is_obj t \<Longrightarrow> \<forall>kvs. deref h v \<noteq> Some (ODict kvs)"
  by (cases t) (auto simp: deref_def split: option.splits obj.splits)

section \<open>Running the operations\<close>

lemma py_get_dict:
  "deref h v = Some (ODict kvs) \<Longrightarrow>
     py_get v k d h = (Inr (case map_of kvs k of Some x \<Rightarrow> x | None \<Rightarrow> d), h)"
  by (simp add: py_get_def)

lemma py_get_no_dict:
  "\<forall>kvs. deref h v \<noteq> Some (ODict kvs) \<Longrightarrow> py_get v k d h = (Inl AttributeError, h)"
  by (auto simp: py_get_def split: option.splits obj.splits)

lemma py_get_new_dict:
  "deref h v = Some (ODict kvs) \<Longrightarrow>
     py_get_new v k ob h =
       (Inr (case map_of kvs k of Some x \<Rightarrow> x | None \<Rightarrow> VRef (length h)), h @ [ob])"
  by (simp add: py_get_new_def seq_def py_new_def alloc_def py_get_dict deref_append)

lemma py_get_new_no_dict:
  "\<forall>kvs. deref h v \<noteq> Some (ODict kvs) \<Longrightarrow> py_get_new v k ob h = (Inl AttributeError, h)"
  by (auto simp: py_get_new_def split: option.splits obj.splits)

lemma py_getitem_dict:
  "deref h v = Some (ODict kvs) \<Longrightarrow>
     py_getitem v k h = (case map_of kvs k of Some x \<Rightarrow> (Inr x, h) | None \<Rightarrow> (Inl KeyError, h))"
  by (simp add: py_getitem_def)

lemma py_append_list:
  "deref h (VRef a) = Some (OList xs) \<Longrightarrow>
     py_append (VRef a) x h = (Inr (), h[a := OList (xs @ [x])])"
  by (simp add: py_append_def)

lemma py_setitem_dict:
  "deref h (VRef a) = Some (ODict kvs) \<Longrightarrow>
     py_setitem (VRef a) k x h = (Inr (), h[a := ODict (AList.update k x kvs)])"
  by (simp add: py_setitem_def)

lemma py_copy_obj:
  "deref h v = Some ob \<Longrightarrow> py_copy v h = (Inr (VRef (length h)), h @ [ob])"
  by (simp add: py_copy_def py_new_def alloc_def)

lemma py_new_eq: "py_new ob h = (Inr (VRef (length h)), h @ [ob])"
  by (simp add: py_new_def alloc_def)

lemma py_iter_snd: "snd (py_iter v h) = h"
  by (auto simp: py_iter_def split: val.splits option.splits obj.splits)

lemma py_iter_same:
  "deref h' v = deref h v \<Longrightarrow> fst (py_iter v h') = fst (py_iter v h)"
  by (auto simp: py_iter_def split: val.splits option.splits obj.splits)

lemma py_iter_list:
  "deref h v = Some (OList xs) \<Longrightarrow> py_iter v h = (Inr xs, h)"
  by (auto simp: py_iter_def deref_def split: val.splits)

lemma py_iter_repr:
  assumes "repr hb v t" and "fst (py_iter v hb) = Inr items"
  shows "\<forall>x \<in> set items. \<exists>t'. repr hb x t'"
proof (cases t)
  case (JStr s)
  with assms have "items = map (\<lambda>c. VStr [c]) s" by (simp add: py_iter_def)
  moreover have "\<exists>t'. repr hb (VStr s') t'" for s'
    by (rule exI [of _ "JStr s'"]) simp
  ultimately show ?thesis by auto
next
  case (JArr ts)
  with assms(1) have "repr hb v (JArr ts)" by simp
  from repr_arr [OF this]
  obtain vs where d: "deref hb v = Some (OList vs)" and l: "list_all2 (repr hb) vs ts"
    by blast
  from assms(2) py_iter_list [OF d] have "items = vs" by simp
  with l show ?thesis by (fastforce simp: list_all2_conv_all_nth in_set_conv_nth)
next
  case (JObj ms)
  with assms(1) have "repr hb v (JObj ms)" by simp
  from repr_obj [OF this] obtain kvs where d: "deref hb v = Some (ODict kvs)"
    by blast
  with assms(2) have "items = map (\<lambda>kv. VStr (fst kv)) kvs"
    by (auto simp: py_iter_def deref_def split: val.splits)
  moreover have "\<exists>t'. repr hb (VStr s') t'" for s'
    by (rule exI [of _ "JStr s'"]) simp
  ultimately show ?thesis by auto
qed (use assms in \<open>auto simp: py_iter_def\<close>)

section \<open>The walk, read off the store it does not write to\<close>

lemma walk_step_dict:
  assumes d: "deref hb node = Some (ODict kvs)"
    and i: "i < length X" and xi: "X ! i = OList xs"
    and known: "\<And>ds. map_of kvs ''details'' = Some ds \<Longrightarrow> \<exists>t. repr hb ds t"
  shows "seq (py_get node ''description'' (VStr '''')) (\<lambda>desc.
         seq (py_get node ''value'' (VInt 0)) (\<lambda>val.
         seq (py_append (VRef (length hb + i)) (VTuple [VInt depth, val, desc])) (\<lambda>_.
         seq (py_get_new node ''details'' (OList [])) (\<lambda>details.
         py_iter details)))) (hb @ X) =
     ((case map_of kvs ''details'' of Some ds \<Rightarrow> fst (py_iter ds hb) | None \<Rightarrow> Inr []),
      hb @ X[i := OList (xs @ [VTuple [VInt depth,
                (case map_of kvs ''value'' of Some x \<Rightarrow> x | None \<Rightarrow> VInt 0),
                (case map_of kvs ''description'' of Some x \<Rightarrow> x | None \<Rightarrow> VStr '''')]])]
         @ [OList []])"
proof -
  let ?row = "VTuple [VInt depth,
                (case map_of kvs ''value'' of Some x \<Rightarrow> x | None \<Rightarrow> VInt 0),
                (case map_of kvs ''description'' of Some x \<Rightarrow> x | None \<Rightarrow> VStr '''')]"
  let ?X1 = "X[i := OList (xs @ [?row])]"
  have d0: "deref (hb @ X) node = Some (ODict kvs)" by (rule deref_append [OF d])
  have d1: "deref (hb @ ?X1) node = Some (ODict kvs)" by (rule deref_append [OF d])
  have r0: "deref (hb @ X) (VRef (length hb + i)) = Some (OList xs)"
    using i xi by (simp add: deref_def nth_append)
  have app: "py_append (VRef (length hb + i)) ?row (hb @ X) = (Inr (), hb @ ?X1)"
    by (simp add: py_append_list [OF r0] list_update_append)
  have it: "py_iter (case map_of kvs ''details'' of Some x \<Rightarrow> x | None \<Rightarrow> VRef (length (hb @ ?X1)))
              (hb @ ?X1 @ [OList []]) =
            ((case map_of kvs ''details'' of Some ds \<Rightarrow> fst (py_iter ds hb) | None \<Rightarrow> Inr []),
             hb @ ?X1 @ [OList []])"
  proof (cases "map_of kvs ''details''")
    case None
    have "deref (hb @ ?X1 @ [OList []]) (VRef (length (hb @ ?X1))) = Some (OList [])"
      using deref_fresh [of "hb @ ?X1" "OList []" "[]"] by simp
    from py_iter_list [OF this] None show ?thesis by simp
  next
    case (Some ds)
    from known [OF Some] obtain t where "repr hb ds t" by blast
    from repr_deref [OF this] have "deref (hb @ ?X1 @ [OList []]) ds = deref hb ds" .
    from py_iter_same [OF this] py_iter_snd [of ds "hb @ ?X1 @ [OList []]"] Some
    show ?thesis by (simp add: prod_eq_iff)
  qed
  show ?thesis
    using it by (simp add: seq_def py_get_dict [OF d0] app py_get_new_dict [OF d1])
qed

lemma walk_step_no_dict:
  assumes "\<forall>kvs. deref h node \<noteq> Some (ODict kvs)"
  shows "seq (py_get node ''description'' (VStr '''')) f h = (Inl AttributeError, h)"
  by (simp add: seq_def py_get_no_dict [OF assms])

lemma walk_outcome_cons:
  "i < length X \<Longrightarrow>
   walk_outcome hb (X[i := OList (xs @ [row])] @ [OList []]) i (xs @ [row]) (rs, k, eo) =
   walk_outcome hb X i xs (row # rs, Suc k, eo)"
  by (simp add: walk_outcome_def list_update_append)

lemma walk_outcome_append:
  "i < length X \<Longrightarrow>
   walk_outcome hb (X[i := OList (xs @ rs)] @ replicate k (OList [])) i (xs @ rs) (rs', k', eo) =
   walk_outcome hb X i xs (rs @ rs', k + k', eo)"
  by (simp add: walk_outcome_def list_update_append replicate_add)

lemma walk_each_refines:
  assumes W: "\<And>node d X xs. \<lbrakk>\<exists>t. repr hb node t; i < length X; X ! i = OList xs\<rbrakk> \<Longrightarrow>
      walk n (VRef (length hb + i)) node d (hb @ X) =
        map_option (walk_outcome hb X i xs) (walk_rows n hb node d)"
  shows "\<lbrakk>\<forall>x \<in> set items. \<exists>t. repr hb x t; i < length X; X ! i = OList xs\<rbrakk> \<Longrightarrow>
      walk_each n (VRef (length hb + i)) items d (hb @ X) =
        map_option (walk_outcome hb X i xs) (walk_rows_each n hb items d)"
proof (induction items arbitrary: X xs)
  case Nil
  from Nil.prems(3) have "X[i := OList xs] = X" by (metis list_update_id)
  then show ?case by (simp add: walk_outcome_def)
next
  case (Cons x rest)
  from Cons.prems have kx: "\<exists>t. repr hb x t" and kr: "\<forall>x \<in> set rest. \<exists>t. repr hb x t"
    by simp_all
  note wx = W [OF kx Cons.prems(2,3), of d]
  show ?case
  proof (cases "walk_rows n hb x d")
    case None
    with wx show ?thesis by simp
  next
    case (Some out)
    obtain rs k eo where out: "out = (rs, k, eo)" by (cases out)
    show ?thesis
    proof (cases eo)
      case (Some e)
      with wx \<open>walk_rows n hb x d = Some out\<close> out show ?thesis
        by (simp add: walk_outcome_def)
    next
      case None
      let ?X2 = "X[i := OList (xs @ rs)] @ replicate k (OList [])"
      from Cons.prems(2) have i2: "i < length ?X2" and x2: "?X2 ! i = OList (xs @ rs)"
        by (simp_all add: nth_append)
      from wx \<open>walk_rows n hb x d = Some out\<close> out None
      have w1: "walk n (VRef (length hb + i)) x d (hb @ X) = Some (Inr (), hb @ ?X2)"
        by (simp add: walk_outcome_def)
      have "walk_each n (VRef (length hb + i)) (x # rest) d (hb @ X) =
            walk_each n (VRef (length hb + i)) rest d (hb @ ?X2)"
        by (simp add: w1)
      also have "\<dots> = map_option (walk_outcome hb ?X2 i (xs @ rs)) (walk_rows_each n hb rest d)"
        by (rule Cons.IH [OF kr i2 x2])
      also have "\<dots> = map_option (walk_outcome hb X i xs) (walk_rows_each n hb (x # rest) d)"
        using \<open>walk_rows n hb x d = Some out\<close> out None Cons.prems(2)
        by (cases "walk_rows_each n hb rest d") (auto simp: walk_outcome_append)
      finally show ?thesis .
    qed
  qed
qed

lemma walk_refines:
  "\<lbrakk>\<exists>t. repr hb node t; i < length X; X ! i = OList xs\<rbrakk> \<Longrightarrow>
      walk n (VRef (length hb + i)) node d (hb @ X) =
        map_option (walk_outcome hb X i xs) (walk_rows n hb node d)"
proof (induction n arbitrary: node d X xs)
  case 0
  show ?case by simp
next
  case (Suc n)
  from Suc.prems(1) obtain t where t: "repr hb node t" by blast
  show ?case
  proof (cases "\<exists>kvs. deref hb node = Some (ODict kvs)")
    case False
    with repr_deref [OF t, of X] have nd: "\<forall>kvs. deref (hb @ X) node \<noteq> Some (ODict kvs)"
      by simp
    from False have "walk_rows (Suc n) hb node d = Some ([], 0, Some AttributeError)"
      by (auto split: option.splits obj.splits)
    moreover from Suc.prems(3) have "X[i := OList xs] = X"
      by (metis list_update_id)
    ultimately show ?thesis
      by (simp add: walk_step_no_dict [OF nd] walk_outcome_def)
  next
    case True
    then obtain kvs where d: "deref hb node = Some (ODict kvs)" by blast
    have ob: "is_obj t"
      using repr_not_obj [OF t] d by blast
    then obtain ms where ms: "t = JObj ms" by (cases t) auto
    from t ms have "repr hb node (JObj ms)" by simp
    from repr_obj [OF this] d
    have l: "list_all2 (\<lambda>kv m. fst kv = fst m \<and> repr hb (snd kv) (snd m)) kvs ms" by simp
    have known: "\<exists>t. repr hb ds t" if "map_of kvs ''details'' = Some ds" for ds
      using members_lookup [OF l, of "''details''"] that
      by (auto simp: option_rel_Some1)
    let ?row = "VTuple [VInt d,
                (case map_of kvs ''value'' of Some x \<Rightarrow> x | None \<Rightarrow> VInt 0),
                (case map_of kvs ''description'' of Some x \<Rightarrow> x | None \<Rightarrow> VStr '''')]"
    let ?X1 = "X[i := OList (xs @ [?row])] @ [OList []]"
    let ?its = "case map_of kvs ''details'' of Some ds \<Rightarrow> fst (py_iter ds hb) | None \<Rightarrow> Inr []"
    note step = walk_step_dict [OF d Suc.prems(2,3) known, of d]
    show ?thesis
    proof (cases ?its)
      case (Inl e)
      with step d show ?thesis
        by (simp add: walk_outcome_def)
    next
      case (Inr items)
      have ki: "\<forall>x \<in> set items. \<exists>t. repr hb x t"
      proof (cases "map_of kvs ''details''")
        case None
        with Inr show ?thesis by simp
      next
        case (Some ds)
        from known [OF Some] obtain t' where "repr hb ds t'" by blast
        from py_iter_repr [OF this] Inr Some show ?thesis by simp
      qed
      from Suc.prems(2) have i1: "i < length ?X1" and x1: "?X1 ! i = OList (xs @ [?row])"
        by (simp_all add: nth_append)
      have "walk (Suc n) (VRef (length hb + i)) node d (hb @ X) =
            walk_each n (VRef (length hb + i)) items (d + 1) (hb @ ?X1)"
        using step Inr by simp
      also have "\<dots> = map_option (walk_outcome hb ?X1 i (xs @ [?row]))
                        (walk_rows_each n hb items (d + 1))"
        by (rule walk_each_refines [OF Suc.IH ki i1 x1])
      also have "\<dots> = map_option (walk_outcome hb X i xs) (walk_rows (Suc n) hb node d)"
        using d Inr Suc.prems(2)
        by (cases "walk_rows_each n hb items (d + 1)") (auto simp: walk_outcome_cons)
      finally show ?thesis .
    qed
  qed
qed

section \<open>The rows of a walk over an explanation tree\<close>

lemma foldr_max_ge: "c \<in> set ts \<Longrightarrow> f c \<le> foldr max (map f ts) (0::nat)"
  by (induction ts) (auto simp: max_def)

lemma height_child:
  "c \<in> set (details_of (JObj ms)) \<Longrightarrow> height (JObj ms) \<le> Suc n \<Longrightarrow> height c \<le> n"
  using foldr_max_ge [of c "details_of (JObj ms)" height] by simp

lemma field_repr:
  assumes l: "list_all2 (\<lambda>kv m. fst kv = fst m \<and> repr hb (snd kv) (snd m)) kvs ms"
    and d: "repr hb dv dt"
  shows "repr hb (case map_of kvs k of Some x \<Rightarrow> x | None \<Rightarrow> dv) (field_or (JObj ms) k dt)"
  using members_lookup [OF l, of k] d
  by (cases "map_of kvs k"; cases "map_of ms k") (auto simp: field_or_def)

lemma walk_rows_each_preorder:
  assumes W: "\<And>v c. \<lbrakk>repr hb v c; c \<in> set ts0\<rbrakk> \<Longrightarrow>
      \<exists>rs k. walk_rows n hb v (int (Suc d)) = Some (rs, k, None) \<and>
             list_all2 (row_repr hb) rs (preorder (Suc d) c)"
  shows "list_all2 (repr hb) vs ts \<Longrightarrow> set ts \<subseteq> set ts0 \<Longrightarrow>
      \<exists>rs k. walk_rows_each n hb vs (int (Suc d)) = Some (rs, k, None) \<and>
             list_all2 (row_repr hb) rs (concat (map (preorder (Suc d)) ts))"
proof (induction vs ts rule: list_all2_induct)
  case Nil
  show ?case by simp
next
  case (Cons v vs c ts)
  from W [OF Cons.hyps(1)] Cons.prems obtain rs k
    where 1: "walk_rows n hb v (int (Suc d)) = Some (rs, k, None)"
      and 2: "list_all2 (row_repr hb) rs (preorder (Suc d) c)" by auto
  from Cons.IH Cons.prems obtain rs' k'
    where 3: "walk_rows_each n hb vs (int (Suc d)) = Some (rs', k', None)"
      and 4: "list_all2 (row_repr hb) rs' (concat (map (preorder (Suc d)) ts))" by auto
  from 1 3 have "walk_rows_each n hb (v # vs) (int (Suc d)) = Some (rs @ rs', k + k', None)"
    by simp
  moreover from 2 4
  have "list_all2 (row_repr hb) (rs @ rs') (concat (map (preorder (Suc d)) (c # ts)))"
    by (simp add: list_all2_appendI)
  ultimately show ?case by blast
qed

lemma walk_rows_preorder:
  "\<lbrakk>repr hb node t; node_ok t; height t \<le> n\<rbrakk> \<Longrightarrow>
     \<exists>rs k. walk_rows n hb node (int d) = Some (rs, k, None) \<and>
            list_all2 (row_repr hb) rs (preorder d t)"
proof (induction n arbitrary: node t d)
  case 0
  then show ?case by (cases t) simp_all
next
  case (Suc n)
  from Suc.prems(2) obtain ms where t: "t = JObj ms" by (cases t) auto
  from Suc.prems(1) t have "repr hb node (JObj ms)" by simp
  from repr_obj [OF this] obtain kvs where dr: "deref hb node = Some (ODict kvs)"
    and l: "list_all2 (\<lambda>kv m. fst kv = fst m \<and> repr hb (snd kv) (snd m)) kvs ms" by blast
  let ?row = "VTuple [VInt (int d),
                (case map_of kvs ''value'' of Some x \<Rightarrow> x | None \<Rightarrow> VInt 0),
                (case map_of kvs ''description'' of Some x \<Rightarrow> x | None \<Rightarrow> VStr '''')]"
  let ?srow = "(d, field_or (JObj ms) ''value'' (JInt 0),
                  field_or (JObj ms) ''description'' (JStr ''''))"
  have row: "row_repr hb ?row ?srow"
    using field_repr [OF l, of "VInt 0" "JInt 0" "''value''"]
      field_repr [OF l, of "VStr ''''" "JStr ''''" "''description''"]
    by simp
  from Suc.prems(2) t have dok: "details_ok (JObj ms)"
    and cok: "\<forall>c \<in> set (details_of (JObj ms)). node_ok c"
    by (simp_all add: list_all_iff)
  have child: "\<exists>rs k. walk_rows n hb v (int (Suc d)) = Some (rs, k, None) \<and>
             list_all2 (row_repr hb) rs (preorder (Suc d) c)"
    if "repr hb v c" "c \<in> set (details_of (JObj ms))" for v c
    using Suc.IH [OF that(1), of "Suc d"] cok that(2) height_child [OF that(2)] Suc.prems(3) t
    by simp
  show ?case
  proof (cases "map_of ms ''details''")
    case None
    with members_lookup [OF l, of "''details''"] have "map_of kvs ''details'' = None"
      by simp
    with dr have "walk_rows (Suc n) hb node (int d) = Some ([?row], 1, None)"
      by simp
    moreover from None have "preorder d t = [?srow]"
      by (simp add: t details_of_def)
    ultimately show ?thesis using row by simp
  next
    case (Some dt)
    with dok obtain ts where dt: "dt = JArr ts" 
      by (cases dt) (auto simp: details_ok_def)
    with Some have dets: "details_of (JObj ms) = ts" by (simp add: details_of_def)
    from members_lookup [OF l, of "''details''"] Some dt
    obtain ds where ds: "map_of kvs ''details'' = Some ds" and "repr hb ds (JArr ts)"
      by (auto simp: option_rel_Some2)
    from repr_arr [OF this(2)] obtain vs where dv: "deref hb ds = Some (OList vs)"
      and lv: "list_all2 (repr hb) vs ts" by blast
    from walk_rows_each_preorder [of hb ts n d, OF child lv] dets
    obtain rs k where 1: "walk_rows_each n hb vs (int (Suc d)) = Some (rs, k, None)"
      and 2: "list_all2 (row_repr hb) rs (concat (map (preorder (Suc d)) ts))" by auto
    have e: "int (Suc d) = int d + 1" by simp
    from 1 have "walk_rows_each n hb vs (int d + 1) = Some (rs, k, None)"
      by (simp only: e)
    with dr ds py_iter_list [OF dv]
    have "walk_rows (Suc n) hb node (int d) = Some (?row # rs, Suc k, None)"
      by simp
    moreover from dets have "preorder d t = ?srow # concat (map (preorder (Suc d)) ts)"
      by (simp add: t)
    ultimately show ?thesis using row 2 by simp
  qed
qed

section \<open>get_breakdown as a whole\<close>

lemma get_breakdown_start:
  assumes d: "deref h j = Some (ODict kvs)" and j: "er_json self = j"
  shows "seq (py_new (OList [])) (\<lambda>result.
           seq (explanation self) (\<lambda>expl. ret (result, expl))) (h @ Y) =
         (Inr (VRef (length h + length Y),
               (case map_of kvs ''explanation'' of
                  Some x \<Rightarrow> x | None \<Rightarrow> VRef (Suc (length h + length Y)))),
          h @ Y @ [OList [], ODict []])"
proof -
  have "deref ((h @ Y) @ [OList []]) j = Some (ODict kvs)"
    by (intro deref_append d)
  from py_get_new_dict [OF this, of "''explanation''" "ODict []"]
  show ?thesis
    by (simp add: seq_def py_new_eq explanation_def j ret_def split: option.splits)
qed

lemma get_breakdown_explained:
  assumes d: "deref h j = Some (ODict kvs)" and j: "er_json self = j"
    and e: "map_of kvs ''explanation'' = Some e" and t: "\<exists>t. repr h e t"
  shows "get_breakdown n self (h @ Y) =
     map_option (\<lambda>(rs, k, eo).
        ((case eo of None \<Rightarrow> Inr (VRef (length h + length Y)) | Some err \<Rightarrow> Inl err),
         h @ Y @ [OList rs, ODict []] @ replicate k (OList [])))
       (walk_rows n h e 0)"
proof -
  let ?X = "Y @ [OList [], ODict []]"
  have i: "length Y < length ?X" and x: "?X ! length Y = OList []" by simp_all
  note w = walk_refines [OF t i x, of n 0]
  show ?thesis
  proof (cases "walk_rows n h e 0")
    case None
    with w show ?thesis
      by (simp add: get_breakdown_def get_breakdown_start [OF d j] e)
  next
    case (Some out)
    obtain rs k eo where out: "out = (rs, k, eo)" by (cases out)
    with w Some show ?thesis
      by (cases eo)
        (simp_all add: get_breakdown_def get_breakdown_start [OF d j] e walk_outcome_def)
  qed
qed

lemma get_breakdown_unexplained:
  assumes d: "deref h j = Some (ODict kvs)" and j: "er_json self = j"
    and e: "map_of kvs ''explanation'' = None"
  shows "get_breakdown (Suc n) self (h @ Y) =
     Some (Inr (VRef (length h + length Y)),
           h @ Y @ [OList [VTuple [VInt 0, VInt 0, VStr '''']], ODict [], OList []])"
proof -
  let ?H = "h @ Y @ [OList [], ODict []]"
  let ?a = "length h + length Y"
  have dn: "deref ?H (VRef (Suc ?a)) = Some (ODict [])"
    by (simp add: deref_def nth_append)
  have dr: "deref ?H (VRef ?a) = Some (OList [])"
    by (simp add: deref_def nth_append)
  have ap: "py_append (VRef ?a) (VTuple [VInt 0, VInt 0, VStr '''']) ?H =
      (Inr (), h @ Y @ [OList [VTuple [VInt 0, VInt 0, VStr '''']], ODict []])"
    by (simp add: py_append_list [OF dr] list_update_append)
  let ?H1 = "h @ Y @ [OList [VTuple [VInt 0, VInt 0, VStr '''']], ODict []]"
  have dn1: "deref ?H1 (VRef (Suc ?a)) = Some (ODict [])"
    by (simp add: deref_def nth_append)
  have it: "py_iter (VRef (length ?H1)) (?H1 @ [OList []]) = (Inr [], ?H1 @ [OList []])"
    by (rule py_iter_list) (simp add: deref_def nth_append)
  have "walk (Suc n) (VRef ?a) (VRef (Suc ?a)) 0 ?H = Some (Inr (), ?H1 @ [OList []])"
    using it by (simp add: seq_def py_get_dict [OF dn] ap py_get_new_dict [OF dn1])
  then show ?thesis
    by (simp add: get_breakdown_def get_breakdown_start [OF d j] e)
qed

section \<open>The breakdown of an explanation\<close>

lemma row_repr_append: "row_repr h v r \<Longrightarrow> row_repr (h @ X) v r"
  by (induction h v r rule: row_repr.induct) (simp_all add: repr_append)

lemma body_explanation:
  assumes "repr h j body" and "jget body ''explanation'' = Some t"
  shows "\<exists>kvs e. deref h j = Some (ODict kvs) \<and> map_of kvs ''explanation'' = Some e \<and> repr h e t"
proof -
  from assms(2) obtain ms where b: "body = JObj ms" and m: "map_of ms ''explanation'' = Some t"
    by (cases body) auto
  from assms(1) b have "repr h j (JObj ms)" by simp
  from repr_obj [OF this] obtain kvs where d: "deref h j = Some (ODict kvs)"
    and l: "list_all2 (\<lambda>kv m. fst kv = fst m \<and> repr h (snd kv) (snd m)) kvs ms" by blast
  from members_lookup [OF l, of "''explanation''"] m
  obtain e where "map_of kvs ''explanation'' = Some e" "repr h e t"
    by (auto simp: option_rel_Some2)
  with d show ?thesis by blast
qed

lemma get_breakdown_tree:
  assumes "repr h (er_json self) body" and "jget body ''explanation'' = Some t"
    and "node_ok t" and "height t \<le> n"
  shows "\<exists>rows h'. get_breakdown n self h = Some (Inr (VRef (length h)), h') \<and>
           length h < length h' \<and> h' ! length h = OList rows \<and>
           list_all2 (row_repr h') rows (preorder 0 t)"
proof -
  from body_explanation [OF assms(1,2)] obtain kvs e
    where d: "deref h (er_json self) = Some (ODict kvs)"
      and e: "map_of kvs ''explanation'' = Some e" and r: "repr h e t" by blast
  from walk_rows_preorder [OF r assms(3,4), of 0] obtain rs k
    where w: "walk_rows n h e 0 = Some (rs, k, None)"
      and l: "list_all2 (row_repr h) rs (preorder 0 t)" by auto
  let ?h' = "h @ [OList rs, ODict []] @ replicate k (OList [])"
  from r have "\<exists>t. repr h e t" by blast
  from get_breakdown_explained [OF d refl e this, of n "[]"] w
  have "get_breakdown n self h = Some (Inr (VRef (length h)), ?h')" by simp
  moreover have "list_all2 (row_repr ?h') rs (preorder 0 t)"
    using l by (auto simp: list_all2_conv_all_nth row_repr_append)
  ultimately show ?thesis by auto
qed

text \<open>
  C1. For an explanation tree \<open>t\<close> (every node an object whose \<^verbatim>\<open>details\<close>, if present,
  is an array of nodes) held by the wrapper, \<^verbatim>\<open>get_breakdown()\<close> returns a new list whose
  rows are those of the pre-order traversal of \<open>t\<close>: the root first at depth 0, then the
  children of each node in their order, one level deeper than their parent. The walk
  needs as many nested calls as the tree is high.
\<close>

theorem get_breakdown_preorder:
  assumes "repr h (er_json self) body" and "jget body ''explanation'' = Some t"
    and "node_ok t" and "height t \<le> n"
  shows "\<exists>rows h'. get_breakdown n self h = Some (Inr (VRef (length h)), h') \<and>
           length h < length h' \<and> h' ! length h = OList rows \<and>
           list_all2 (row_repr h') rows (preorder 0 t)"
  using assms by (rule get_breakdown_tree)

theorem get_breakdown_preorder_witness:
  "repr (store_of ex_body) (er_json (wrap_explain ex_body)) ex_body \<and>
   jget ex_body ''explanation'' = Some ex_tree \<and> node_ok ex_tree \<and> height ex_tree \<le> 3 \<and>
   (\<exists>h'. get_breakdown 3 (wrap_explain ex_body) (store_of ex_body) = Some (Inr (VRef 7), h') \<and>
      h' ! 7 = OList [VTuple [VInt 0, VInt 10, VStr ''root''], VTuple [VInt 1, VInt 4, VStr ''a''],
                      VTuple [VInt 1, VInt 6, VStr ''b''], VTuple [VInt 2, VInt 6, VStr ''c'']])"
proof -
  have 1: "repr (store_of ex_body) (er_json (wrap_explain ex_body)) ex_body" by code_simp
  have 2: "jget ex_body ''explanation'' = Some ex_tree" by code_simp
  have 3: "node_ok ex_tree" by code_simp
  have 4: "height ex_tree \<le> 3" by code_simp
  have len: "length (store_of ex_body) = 7" by code_simp
  have run: "map_option (\<lambda>(r, h'). h' ! 7)
     (get_breakdown 3 (wrap_explain ex_body) (store_of ex_body)) =
     Some (OList [VTuple [VInt 0, VInt 10, VStr ''root''], VTuple [VInt 1, VInt 4, VStr ''a''],
                  VTuple [VInt 1, VInt 6, VStr ''b''], VTuple [VInt 2, VInt 6, VStr ''c'']])"
    by code_simp
  from get_breakdown_preorder [OF 1 2 3 4] len obtain h'
    where "get_breakdown 3 (wrap_explain ex_body) (store_of ex_body) = Some (Inr (VRef 7), h')"
    by auto
  with run 1 2 3 4 show ?thesis by simp
qed

lemma get_breakdown_no_dict:
  assumes "\<forall>kvs. deref h (er_json self) \<noteq> Some (ODict kvs)"
  shows "get_breakdown n self h = Some (Inl AttributeError, h @ [OList []])"
proof -
  have "\<forall>kvs. deref (h @ [OList []]) (er_json self) \<noteq> Some (ODict kvs)"
    using assms by (auto simp: deref_def nth_append split: val.splits if_splits)
  from py_get_new_no_dict [OF this] show ?thesis
    by (simp add: get_breakdown_def seq_def py_new_eq explanation_def)
qed

text \<open>
  C6. \<^verbatim>\<open>get_breakdown()\<close> keeps nothing between calls. A call that returns gives a list
  object that did not exist before the call and leaves every existing object as it was.
  In every later store \<open>g\<close> that still has the objects of the wrapped response (the store
  right after the first call, or that store after the caller has changed the first
  result in any way), a second call returns again a list object that did not exist
  before, with the same rows, and leaves every object of \<open>g\<close>, the first result among
  them, as it was.
\<close>

theorem get_breakdown_fresh_each_call:
  assumes "repr h (er_json self) body"
    and "get_breakdown n self h = Some (Inr v1, h1)"
    and "take (length h) g = h"
  shows "\<exists>rows g'. v1 = VRef (length h) \<and> length h < length h1 \<and>
           h1 ! length h = OList rows \<and> take (length h) h1 = h \<and>
           get_breakdown n self g = Some (Inr (VRef (length g)), g') \<and>
           length g < length g' \<and> g' ! length g = OList rows \<and> take (length g) g' = g"
proof -
  from assms(3) have "g = h @ drop (length h) g"
    by (metis append_take_drop_id)
  then obtain Y where g: "g = h @ Y" ..
  have "\<exists>kvs. deref h (er_json self) = Some (ODict kvs)"
    using get_breakdown_no_dict [of h self n] assms(2) by auto
  then obtain kvs where d: "deref h (er_json self) = Some (ODict kvs)" ..
  show ?thesis
  proof (cases "map_of kvs ''explanation''")
    case None
    have "get_breakdown 0 self h = None"
      using get_breakdown_start [OF d refl, of "[]"] by (simp add: get_breakdown_def)
    with assms(2) obtain m where n: "n = Suc m" by (cases n) auto
    from get_breakdown_unexplained [OF d refl None, of m "[]"]
      get_breakdown_unexplained [OF d refl None, of m Y] assms(2)
    show ?thesis
      by (auto simp: n g nth_append)
  next
    case (Some e)
    from repr_not_obj [OF assms(1)] d have "is_obj body" by blast
    then obtain ms where "body = JObj ms" by (cases body) auto
    with assms(1) have "repr h (er_json self) (JObj ms)" by simp
    from repr_obj [OF this] d
    have "list_all2 (\<lambda>kv m. fst kv = fst m \<and> repr h (snd kv) (snd m)) kvs ms" by simp
    from members_lookup [OF this, of "''explanation''"] Some
    have t: "\<exists>t. repr h e t" by (auto simp: option_rel_Some1)
    note a = get_breakdown_explained [OF d refl Some t, of n "[]"]
    note b = get_breakdown_explained [OF d refl Some t, of n Y]
    have "\<exists>rs k. walk_rows n h e 0 = Some (rs, k, None)"
    proof (cases "walk_rows n h e 0")
      case None
      with a assms(2) show ?thesis by simp
    next
      case (Some out)
      obtain rs k eo where "out = (rs, k, eo)" by (cases out)
      with a assms(2) Some show ?thesis by (cases eo) auto
    qed
    then obtain rs k where w: "walk_rows n h e 0 = Some (rs, k, None)" by blast
    from a b w assms(2) show ?thesis
      by (auto simp: g nth_append)
  qed
qed

theorem get_breakdown_fresh_each_call_witness:
  "repr (store_of ex_body) (er_json (wrap_explain ex_body)) ex_body \<and>
   get_breakdown 3 (wrap_explain ex_body) (store_of ex_body) = Some (Inr (VRef 7), ex_after) \<and>
   take (length (store_of ex_body)) (ex_after[7 := OList []]) = store_of ex_body \<and>
   (\<exists>rows g'. ex_after ! 7 = OList rows \<and> length rows = 4 \<and>
      get_breakdown 3 (wrap_explain ex_body) (ex_after[7 := OList []]) =
        Some (Inr (VRef (length ex_after)), g') \<and>
      g' ! length ex_after = OList rows \<and> g' ! 7 = OList [])"
proof -
  let ?g = "ex_after[7 := OList []]"
  have 1: "repr (store_of ex_body) (er_json (wrap_explain ex_body)) ex_body" by code_simp
  have 2: "get_breakdown 3 (wrap_explain ex_body) (store_of ex_body) = Some (Inr (VRef 7), ex_after)"
    by code_simp
  have 3: "take (length (store_of ex_body)) ?g = store_of ex_body" by code_simp
  have 4: "length (ex_after ! 7 # []) = 1 \<and> 7 < length ex_after \<and>
           (case ex_after ! 7 of OList rows \<Rightarrow> length rows = 4 | _ \<Rightarrow> False)" by code_simp
  from get_breakdown_fresh_each_call [OF 1 2 3] obtain rows g'
    where r: "ex_after ! 7 = OList rows"
      and c: "get_breakdown 3 (wrap_explain ex_body) ?g = Some (Inr (VRef (length ?g)), g')"
      and n: "g' ! length ?g = OList rows" and t: "take (length ?g) g' = ?g"
    by (auto simp: 4)
  from 4 have "?g ! 7 = OList []" by simp
  with t 4 have "g' ! 7 = OList []"
    by (metis length_list_update nth_take)
  with 1 2 3 4 r c n show ?thesis by auto
qed

text \<open>
  C9. When the body of the response is an object without the key \<^verbatim>\<open>explanation\<close>, the
  \<^verbatim>\<open>explanation\<close> accessor returns a new empty mapping, and \<^verbatim>\<open>get_breakdown()\<close>
  returns exactly one row, \<^verbatim>\<open>(0, 0, "")\<close>.
\<close>

theorem get_breakdown_no_explanation:
  assumes "repr h (er_json self) body" and "is_obj body"
    and "jget body ''explanation'' = None"
  shows "explanation self h = (Inr (VRef (length h)), h @ [ODict []]) \<and>
         get_breakdown (Suc n) self h =
           Some (Inr (VRef (length h)),
                 h @ [OList [VTuple [VInt 0, VInt 0, VStr '''']], ODict [], OList []])"
proof -
  from assms(2) obtain ms where b: "body = JObj ms" by (cases body) auto
  with assms(1) have "repr h (er_json self) (JObj ms)" by simp
  from repr_obj [OF this] obtain kvs where d: "deref h (er_json self) = Some (ODict kvs)"
    and l: "list_all2 (\<lambda>kv m. fst kv = fst m \<and> repr h (snd kv) (snd m)) kvs ms" by blast
  from members_lookup [OF l, of "''explanation''"] assms(3) b
  have none: "map_of kvs ''explanation'' = None" by simp
  from py_get_new_dict [OF d, of "''explanation''" "ODict []"] none
  have "explanation self h = (Inr (VRef (length h)), h @ [ODict []])"
    by (simp add: explanation_def)
  with get_breakdown_unexplained [OF d refl none, of n "[]"] show ?thesis by simp
qed

theorem get_breakdown_no_explanation_witness:
  "repr (store_of (JObj [(''took'', JInt 3)])) (er_json (wrap_explain (JObj [(''took'', JInt 3)])))
     (JObj [(''took'', JInt 3)]) \<and>
   is_obj (JObj [(''took'', JInt 3)]) \<and> jget (JObj [(''took'', JInt 3)]) ''explanation'' = None \<and>
   explanation (wrap_explain (JObj [(''took'', JInt 3)])) [ODict [(''took'', VInt 3)]] =
     (Inr (VRef 1), [ODict [(''took'', VInt 3)], ODict []]) \<and>
   get_breakdown 1 (wrap_explain (JObj [(''took'', JInt 3)])) [ODict [(''took'', VInt 3)]] =
     Some (Inr (VRef 1),
       [ODict [(''took'', VInt 3)], OList [VTuple [VInt 0, VInt 0, VStr '''']], ODict [], OList []])"
proof -
  let ?b = "JObj [(''took'', JInt 3)]"
  have s: "store_of ?b = [ODict [(''took'', VInt 3)]]" by code_simp
  have 1: "repr (store_of ?b) (er_json (wrap_explain ?b)) ?b" by code_simp
  have 2: "is_obj ?b" by simp
  have 3: "jget ?b ''explanation'' = None" by simp
  from get_breakdown_no_explanation [OF 1 2 3, of 0] 1 2 3 show ?thesis
    by (simp add: s)
qed

section \<open>Construction\<close>

lemma alloc_list_repr:
  assumes P: "\<And>t h. t \<in> set ts \<Longrightarrow> \<exists>v X. alloc_json t h = (v, h @ X) \<and> repr (h @ X) v t"
  shows "\<exists>vs X. alloc_list ts h = (vs, h @ X) \<and> list_all2 (repr (h @ X)) vs ts"
  using P
proof (induction ts arbitrary: h)
  case Nil
  show ?case by simp
next
  case (Cons t ts)
  from Cons.prems [of t h] obtain v X1 where 1: "alloc_json t h = (v, h @ X1)"
    and r1: "repr (h @ X1) v t" by auto
  have "\<exists>v X. alloc_json t' h' = (v, h' @ X) \<and> repr (h' @ X) v t'" if "t' \<in> set ts" for t' h'
    using Cons.prems [of t' h'] that by simp
  from Cons.IH [OF this, of "h @ X1"] obtain vs X2
    where 2: "alloc_list ts (h @ X1) = (vs, (h @ X1) @ X2)"
      and r2: "list_all2 (repr ((h @ X1) @ X2)) vs ts" by blast
  from 1 2 have "alloc_list (t # ts) h = (v # vs, h @ (X1 @ X2))" by simp
  moreover from r1 r2 have "list_all2 (repr (h @ (X1 @ X2))) (v # vs) (t # ts)"
    using repr_append [of "h @ X1" v t X2] by simp
  ultimately show ?case by blast
qed

lemma alloc_members_repr:
  assumes P: "\<And>m h. m \<in> set ms \<Longrightarrow>
      \<exists>v X. alloc_json (snd m) h = (v, h @ X) \<and> repr (h @ X) v (snd m)"
  shows "\<exists>kvs X. alloc_members ms h = (kvs, h @ X) \<and>
      list_all2 (\<lambda>kv m. fst kv = fst m \<and> repr (h @ X) (snd kv) (snd m)) kvs ms"
  using P
proof (induction ms arbitrary: h)
  case Nil
  show ?case by simp
next
  case (Cons m ms)
  obtain k t where m: "m = (k, t)" by (cases m)
  from Cons.prems [of m h] m obtain v X1 where 1: "alloc_json t h = (v, h @ X1)"
    and r1: "repr (h @ X1) v t" by auto
  have "\<exists>v X. alloc_json (snd m') h' = (v, h' @ X) \<and> repr (h' @ X) v (snd m')"
    if "m' \<in> set ms" for m' h'
    using Cons.prems [of m' h'] that by simp
  from Cons.IH [OF this, of "h @ X1"] obtain kvs X2
    where 2: "alloc_members ms (h @ X1) = (kvs, (h @ X1) @ X2)"
      and r2: "list_all2 (\<lambda>kv m. fst kv = fst m \<and> repr ((h @ X1) @ X2) (snd kv) (snd m)) kvs ms"
    by blast
  from 1 2 m have "alloc_members (m # ms) h = ((k, v) # kvs, h @ (X1 @ X2))" by simp
  moreover from r1 r2 m
  have "list_all2 (\<lambda>kv m. fst kv = fst m \<and> repr (h @ (X1 @ X2)) (snd kv) (snd m))
          ((k, v) # kvs) (m # ms)"
    using repr_append [of "h @ X1" v t X2] by simp
  ultimately show ?case by blast
qed

lemma repr_list_append:
  "list_all2 (repr h) vs ts \<Longrightarrow> list_all2 (repr (h @ X)) vs ts"
  by (auto simp: list_all2_conv_all_nth repr_append)

lemma repr_members_append:
  "list_all2 (\<lambda>kv m. fst kv = fst m \<and> repr h (snd kv) (snd m)) kvs ms \<Longrightarrow>
   list_all2 (\<lambda>kv m. fst kv = fst m \<and> repr (h @ X) (snd kv) (snd m)) kvs ms"
  by (auto simp: list_all2_conv_all_nth repr_append)

lemma alloc_json_repr: "\<exists>v X. alloc_json t h = (v, h @ X) \<and> repr (h @ X) v t"
proof (induction t arbitrary: h)
  case (JArr ts)
  from alloc_list_repr [of ts h] JArr obtain vs X
    where 1: "alloc_list ts h = (vs, h @ X)" and r: "list_all2 (repr (h @ X)) vs ts" by blast
  from 1 have "alloc_json (JArr ts) h = (VRef (length (h @ X)), h @ (X @ [OList vs]))"
    by (simp add: alloc_def)
  moreover have "repr (h @ (X @ [OList vs])) (VRef (length (h @ X))) (JArr ts)"
    using repr_list_append [OF r, of "[OList vs]"] deref_fresh [of "h @ X" "OList vs" "[]"]
    by simp
  ultimately show ?case by blast
next
  case (JObj ms)
  have "\<exists>v X. alloc_json (snd m) h = (v, h @ X) \<and> repr (h @ X) v (snd m)"
    if "m \<in> set ms" for m h
    using JObj [of m "snd m" h] that by (cases m) auto
  from alloc_members_repr [of ms h, OF this] obtain kvs X
    where 1: "alloc_members ms h = (kvs, h @ X)"
      and r: "list_all2 (\<lambda>kv m. fst kv = fst m \<and> repr (h @ X) (snd kv) (snd m)) kvs ms"
    by blast
  from 1 have "alloc_json (JObj ms) h = (VRef (length (h @ X)), h @ (X @ [ODict kvs]))"
    by (simp add: alloc_def)
  moreover have "repr (h @ (X @ [ODict kvs])) (VRef (length (h @ X))) (JObj ms)"
    using repr_members_append [OF r, of "[ODict kvs]"] deref_fresh [of "h @ X" "ODict kvs" "[]"]
    by simp
  ultimately show ?case by blast
qed simp_all

text \<open>
  C7. Constructing a \<^verbatim>\<open>SearchResults\<close> from a response whose body is not JSON fails
  with the decoding error of \<^verbatim>\<open>response.json()\<close>. For a body that is the JSON text of
  a tree \<open>t\<close> the constructor succeeds: it has parsed the body exactly once, it holds the
  response and the objects built for \<open>t\<close>, and it has left every existing object as it was.
\<close>

theorem SearchResults_init_parses_once:
  "(resp_body r = None \<longrightarrow> fst (SearchResults_init r w) = Inl JSONDecodeError) \<and>
   (\<forall>t. resp_body r = Some t \<longrightarrow>
      (\<exists>self w'. SearchResults_init r w = (Inr self, w') \<and>
         json_calls w' = json_calls w + 1 \<and>
         sr_response self = r \<and> repr (objs w') (sr_json self) t \<and>
         take (length (objs w)) (objs w') = objs w))"
proof (intro conjI allI impI)
  assume "resp_body r = None"
  then show "fst (SearchResults_init r w) = Inl JSONDecodeError"
    by (simp add: SearchResults_init_def response_json_def)
next
  fix t assume b: "resp_body r = Some t"
  from alloc_json_repr [of t "objs w"] obtain v X
    where "alloc_json t (objs w) = (v, objs w @ X)" and "repr (objs w @ X) v t" by blast
  with b show "\<exists>self w'. SearchResults_init r w = (Inr self, w') \<and>
         json_calls w' = json_calls w + 1 \<and>
         sr_response self = r \<and> repr (objs w') (sr_json self) t \<and>
         take (length (objs w)) (objs w') = objs w"
    by (simp add: SearchResults_init_def response_json_def)
qed

theorem SearchResults_init_parses_once_witness:
  "fst (SearchResults_init \<lparr>resp_status_code = 200, resp_body = None\<rparr>
         \<lparr>objs = [], json_calls = 0\<rparr>) = Inl JSONDecodeError \<and>
   (\<exists>w'. SearchResults_init (ok_response ex_hits) \<lparr>objs = [], json_calls = 0\<rparr> =
            (Inr (wrap_search ex_hits), w') \<and>
          json_calls w' = 1 \<and> objs w' = store_of ex_hits \<and>
          repr (objs w') (sr_json (wrap_search ex_hits)) ex_hits)"
proof -
  let ?w = "\<lparr>objs = [], json_calls = 0\<rparr>"
  have i: "SearchResults_init (ok_response ex_hits) ?w =
      (Inr (wrap_search ex_hits), \<lparr>objs = store_of ex_hits, json_calls = 1\<rparr>)"
    by (simp add: SearchResults_init_def response_json_def ok_response_def wrap_search_def
        store_of_def root_of_def split: prod.splits)
  have b: "resp_body (ok_response ex_hits) = Some ex_hits" by (simp add: ok_response_def)
  from SearchResults_init_parses_once [of "\<lparr>resp_status_code = 200, resp_body = None\<rparr>" ?w]
  have 1: "fst (SearchResults_init \<lparr>resp_status_code = 200, resp_body = None\<rparr> ?w) =
      Inl JSONDecodeError" by simp
  from SearchResults_init_parses_once [of "ok_response ex_hits" ?w] b i
  have "repr (store_of ex_hits) (sr_json (wrap_search ex_hits)) ex_hits" by auto
  with 1 i show ?thesis by simp
qed

section \<open>Lookups with defaults\<close>

lemma jget_obj: "jget t k = Some c \<Longrightarrow> is_obj t"
  by (cases t) auto

lemma repr_lookup:
  assumes "repr h v t" and "is_obj t"
  shows "\<exists>kvs. deref h v = Some (ODict kvs) \<and> rel_option (repr h) (map_of kvs k) (jget t k)"
proof -
  from assms(2) obtain ms where t: "t = JObj ms" by (cases t) auto
  with assms(1) have "repr h v (JObj ms)" by simp
  from repr_obj [OF this] obtain kvs where d: "deref h v = Some (ODict kvs)"
    and l: "list_all2 (\<lambda>kv m. fst kv = fst m \<and> repr h (snd kv) (snd m)) kvs ms" by blast
  from members_lookup [OF l, of k] d t show ?thesis by simp
qed

lemma py_get_new_repr:
  assumes "repr h v t" and "is_obj t"
  shows "\<exists>x. py_get_new v k ob (h @ X) = (Inr x, h @ X @ [ob]) \<and>
           (case jget t k of Some c \<Rightarrow> repr h x c | None \<Rightarrow> x = VRef (length h + length X))"
proof -
  from repr_lookup [OF assms, of k] obtain kvs where d: "deref h v = Some (ODict kvs)"
    and r: "rel_option (repr h) (map_of kvs k) (jget t k)" by blast
  from py_get_new_dict [OF deref_append [OF d, of X], of k ob] r show ?thesis
    by (cases "map_of kvs k"; cases "jget t k") auto
qed

lemma py_get_repr:
  assumes "repr h v t" and "is_obj t"
  shows "\<exists>x. py_get v k d (h @ X) = (Inr x, h @ X) \<and>
           (case jget t k of Some c \<Rightarrow> repr h x c | None \<Rightarrow> x = d)"
proof -
  from repr_lookup [OF assms, of k] obtain kvs where dr: "deref h v = Some (ODict kvs)"
    and r: "rel_option (repr h) (map_of kvs k) (jget t k)" by blast
  from py_get_dict [OF deref_append [OF dr, of X], of k d] r show ?thesis
    by (cases "map_of kvs k"; cases "jget t k") auto
qed

lemma py_get_new_empty:
  "deref H v = Some (ODict []) \<Longrightarrow> py_get_new v k ob H = (Inr (VRef (length H)), H @ [ob])"
  by (simp add: py_get_new_dict)

lemma py_get_empty: "deref H v = Some (ODict []) \<Longrightarrow> py_get v k d H = (Inr d, H)"
  by (simp add: py_get_dict)

lemma deref_last: "deref (H @ [ob]) (VRef (length H)) = Some ob"
  by (simp add: deref_def)

text \<open>The two lookups that \<^verbatim>\<open>hits\<close> and \<^verbatim>\<open>total\<close> start with.\<close>

lemma get_hits_section:
  assumes "repr h j body" and "is_obj body"
  shows "\<exists>x. py_get_new j ''hits'' (ODict []) h = (Inr x, h @ [ODict []]) \<and>
           (case jget body ''hits'' of
              Some hh \<Rightarrow> repr h x hh
            | None \<Rightarrow> deref (h @ [ODict []]) x = Some (ODict []))"
  using py_get_new_repr [OF assms, of "''hits''" "ODict []" "[]"] deref_last [of h "ODict []"]
  by (auto split: option.splits)

lemma second_lookup:
  assumes "case sec of Some hh \<Rightarrow> repr h x hh \<and> is_obj hh
                     | None \<Rightarrow> deref (h @ [ODict []]) x = Some (ODict [])"
  shows "\<exists>y. py_get_new x k ob (h @ [ODict []]) = (Inr y, h @ [ODict [], ob]) \<and>
           (case (case sec of Some hh \<Rightarrow> jget hh k | None \<Rightarrow> None) of
              Some c \<Rightarrow> repr h y c
            | None \<Rightarrow> y = VRef (Suc (length h)))"
proof (cases sec)
  case None
  with assms py_get_new_empty [of "h @ [ODict []]" x k ob] show ?thesis by simp
next
  case (Some hh)
  with assms py_get_new_repr [of h x hh k ob "[ODict []]"] show ?thesis
    by (auto split: option.splits)
qed

lemma deref_second: "deref (h @ [a, b]) (VRef (Suc (length h))) = Some b"
  by (simp add: deref_def nth_append)

lemma total_absent:
  assumes "repr h (sr_json self) body"
    and a: "missing_key body [''hits'', ''total'', ''value'']"
  shows "total self h = (Inr (VInt 0), h @ [ODict [], ODict []])"
proof -
  from a have ob: "is_obj body" by simp
  from get_hits_section [OF assms(1) ob] obtain x
    where s1: "py_get_new (sr_json self) ''hits'' (ODict []) h = (Inr x, h @ [ODict []])"
      and x: "case jget body ''hits'' of Some hh \<Rightarrow> repr h x hh
                | None \<Rightarrow> deref (h @ [ODict []]) x = Some (ODict [])" by blast
  from a have "case jget body ''hits'' of Some hh \<Rightarrow> is_obj hh | None \<Rightarrow> True"
    by (auto split: option.splits)
  with x have "case jget body ''hits'' of Some hh \<Rightarrow> repr h x hh \<and> is_obj hh
                | None \<Rightarrow> deref (h @ [ODict []]) x = Some (ODict [])"
    by (auto split: option.splits)
  from second_lookup [OF this, where k = "''total''" and ob = "ODict []"] obtain y
    where s2: "py_get_new x ''total'' (ODict []) (h @ [ODict []]) = (Inr y, h @ [ODict [], ODict []])"
      and y: "case (case jget body ''hits'' of Some hh \<Rightarrow> jget hh ''total'' | None \<Rightarrow> None) of
                Some c \<Rightarrow> repr h y c | None \<Rightarrow> y = VRef (Suc (length h))" by blast
  have s3: "py_get y ''value'' (VInt 0) (h @ [ODict [], ODict []]) =
        (Inr (VInt 0), h @ [ODict [], ODict []])"
  proof (cases "case jget body ''hits'' of Some hh \<Rightarrow> jget hh ''total'' | None \<Rightarrow> None")
    case None
    with y have "y = VRef (Suc (length h))" by simp
    with py_get_empty [OF deref_second [of h "ODict []" "ODict []"]] show ?thesis by simp
  next
    case (Some tt)
    with y have r: "repr h y tt" by simp
    from Some a have o: "is_obj tt" and n: "jget tt ''value'' = None"
      by (auto split: option.splits)
    from py_get_repr [OF r o, of "''value''" "VInt 0" "[ODict [], ODict []]"] n
    show ?thesis by simp
  qed
  from s1 s2 s3 show ?thesis
    by (simp add: total_def seq_def)
qed

text \<open>
  Of a path in a body exactly one of the three holds: there is a value at it, a key of it
  is missing from the mapping reached, or a value reached on the way is not a mapping.
\<close>

lemma path_cases:
  "jpath t ks \<noteq> None \<or> missing_key t ks \<or> not_mapping_on t ks"
  by (induction ks arbitrary: t) (auto split: option.splits)

lemma path_cases_apart:
  "\<not> (missing_key t ks \<and> not_mapping_on t ks) \<and>
   (jpath t ks \<noteq> None \<longrightarrow> \<not> missing_key t ks \<and> \<not> not_mapping_on t ks)"
proof (induction ks arbitrary: t)
  case Nil
  show ?case by simp
next
  case (Cons k ks)
  show ?case
  proof (cases "jget t k")
    case None
    then show ?thesis by (cases t) auto
  next
    case (Some c)
    then have "is_obj t" by (rule jget_obj)
    with Some Cons [of c] show ?thesis by auto
  qed
qed

text \<open>
  \<^verbatim>\<open>total\<close> applies \<^verbatim>\<open>.get\<close> to whatever the lookup before it returned: to the body, to
  the value under \<^verbatim>\<open>hits\<close>, to the value under \<^verbatim>\<open>hits.total\<close>. When one of them is
  there and is not a mapping, that \<^verbatim>\<open>.get\<close> raises.
\<close>

lemma total_not_mapping:
  assumes r: "repr h (sr_json self) body"
    and a: "not_mapping_on body [''hits'', ''total'', ''value'']"
  shows "fst (total self h) = Inl AttributeError"
proof (cases "is_obj body")
  case False
  from py_get_new_no_dict [OF repr_not_obj [OF r False]]
  show ?thesis by (simp add: total_def seq_def)
next
  case True
  with a obtain hh where 1: "jget body ''hits'' = Some hh"
    and b: "not_mapping_on hh [''total'', ''value'']"
    by (auto split: option.splits)
  from get_hits_section [OF r True] 1 obtain x
    where s1: "py_get_new (sr_json self) ''hits'' (ODict []) h = (Inr x, h @ [ODict []])"
      and x: "repr h x hh" by auto
  show ?thesis
  proof (cases "is_obj hh")
    case False
    from repr_not_obj [OF x False] repr_deref [OF x, of "[ODict []]"]
    have "\<forall>kvs. deref (h @ [ODict []]) x \<noteq> Some (ODict kvs)" by simp
    from py_get_new_no_dict [OF this] s1 show ?thesis by (simp add: total_def seq_def)
  next
    case True
    with b obtain tt where 2: "jget hh ''total'' = Some tt" and c: "\<not> is_obj tt"
      by (auto split: option.splits)
    from second_lookup [where sec = "Some hh" and h = h and x = x and k = "''total''"
        and ob = "ODict []"] x True 2 obtain y
      where s2: "py_get_new x ''total'' (ODict []) (h @ [ODict []]) =
          (Inr y, h @ [ODict [], ODict []])" and y: "repr h y tt" by auto
    from repr_not_obj [OF y c] repr_deref [OF y, of "[ODict [], ODict []]"]
    have "\<forall>kvs. deref (h @ [ODict [], ODict []]) y \<noteq> Some (ODict kvs)" by simp
    from py_get_no_dict [OF this] s1 s2 show ?thesis by (simp add: total_def seq_def)
  qed
qed

text \<open>
  C4 as the spec states it fails. In the body \<^verbatim>\<open>{"hits": {"total": 5}}\<close>, the total of
  the older response format, there is nothing at the path \<^verbatim>\<open>hits.total.value\<close>, and
  \<^verbatim>\<open>total\<close> does not return 0: it raises \<open>AttributeError\<close>, from \<^verbatim>\<open>.get("value", 0)\<close>
  applied to the number 5.
\<close>

theorem total_plain_count_counterexample:
  "jpath ex_plain_total [''hits'', ''total'', ''value''] = None \<and>
   fst (total (wrap_search ex_plain_total) (store_of ex_plain_total)) = Inl AttributeError"
  by code_simp

text \<open>
  C4, as amended. When the body has a value \<open>n\<close> at the path \<^verbatim>\<open>hits.total.value\<close>,
  \<^verbatim>\<open>total\<close> returns that value. When one of the keys \<^verbatim>\<open>hits\<close>, \<^verbatim>\<open>total\<close>, \<^verbatim>\<open>value\<close> is
  missing from the mapping reached at its level, \<^verbatim>\<open>total\<close> returns 0. When the body, or
  the value under \<^verbatim>\<open>hits\<close> or under \<^verbatim>\<open>hits.total\<close>, is there but is not a mapping,
  \<^verbatim>\<open>total\<close> raises \<open>AttributeError\<close>.
\<close>

theorem total_value_or_zero:
  assumes "repr h (sr_json self) body"
  shows "(\<forall>n. jpath body [''hits'', ''total'', ''value''] = Some n \<longrightarrow>
            (\<exists>v h'. total self h = (Inr v, h') \<and> repr h' v n)) \<and>
         (missing_key body [''hits'', ''total'', ''value''] \<longrightarrow>
            (\<exists>h'. total self h = (Inr (VInt 0), h'))) \<and>
         (not_mapping_on body [''hits'', ''total'', ''value''] \<longrightarrow>
            fst (total self h) = Inl AttributeError)"
proof (intro conjI allI impI)
  fix n assume p: "jpath body [''hits'', ''total'', ''value''] = Some n"
  then obtain hh tt where 1: "jget body ''hits'' = Some hh" and 2: "jget hh ''total'' = Some tt"
    and 3: "jget tt ''value'' = Some n"
    by (auto split: option.splits)
  from get_hits_section [OF assms jget_obj [OF 1]] 1 obtain x
    where s1: "py_get_new (sr_json self) ''hits'' (ODict []) h = (Inr x, h @ [ODict []])"
      and x: "repr h x hh" by auto
  from second_lookup [where sec = "Some hh" and h = h and x = x and k = "''total''" and ob = "ODict []"] x jget_obj [OF 2] 2 obtain y
    where s2: "py_get_new x ''total'' (ODict []) (h @ [ODict []]) = (Inr y, h @ [ODict [], ODict []])"
      and y: "repr h y tt" by auto
  from py_get_repr [OF y jget_obj [OF 3], of "''value''" "VInt 0" "[ODict [], ODict []]"] 3
  obtain v where s3: "py_get y ''value'' (VInt 0) (h @ [ODict [], ODict []]) =
        (Inr v, h @ [ODict [], ODict []])" and v: "repr h v n" by auto
  from s1 s2 s3 have "total self h = (Inr v, h @ [ODict [], ODict []])"
    by (simp add: total_def seq_def)
  with repr_append [OF v] show "\<exists>v h'. total self h = (Inr v, h') \<and> repr h' v n" by blast
next
  assume "missing_key body [''hits'', ''total'', ''value'']"
  from total_absent [OF assms this]
  show "\<exists>h'. total self h = (Inr (VInt 0), h')" by blast
next
  assume "not_mapping_on body [''hits'', ''total'', ''value'']"
  then show "fst (total self h) = Inl AttributeError"
    by (rule total_not_mapping [OF assms])
qed

theorem total_value_or_zero_witness:
  "repr (store_of ex_hits) (sr_json (wrap_search ex_hits)) ex_hits \<and>
   jpath ex_hits [''hits'', ''total'', ''value''] = Some (JInt 2) \<and>
   fst (total (wrap_search ex_hits) (store_of ex_hits)) = Inr (VInt 2) \<and>
   repr (store_of (JObj [(''hits'', JObj [])])) (sr_json (wrap_search (JObj [(''hits'', JObj [])])))
     (JObj [(''hits'', JObj [])]) \<and>
   missing_key (JObj [(''hits'', JObj [])]) [''hits'', ''total'', ''value''] \<and>
   fst (total (wrap_search (JObj [(''hits'', JObj [])])) (store_of (JObj [(''hits'', JObj [])]))) =
     Inr (VInt 0) \<and>
   repr (store_of ex_null_hits) (sr_json (wrap_search ex_null_hits)) ex_null_hits \<and>
   not_mapping_on ex_null_hits [''hits'', ''total'', ''value''] \<and>
   fst (total (wrap_search ex_null_hits) (store_of ex_null_hits)) = Inl AttributeError"
proof -
  let ?b = "JObj [(''hits'', JObj [])]"
  have 1: "repr (store_of ex_hits) (sr_json (wrap_search ex_hits)) ex_hits" by code_simp
  have 2: "jpath ex_hits [''hits'', ''total'', ''value''] = Some (JInt 2)" by code_simp
  have 3: "repr (store_of ?b) (sr_json (wrap_search ?b)) ?b" by code_simp
  have 4: "missing_key ?b [''hits'', ''total'', ''value'']" by code_simp
  have 5: "repr (store_of ex_null_hits) (sr_json (wrap_search ex_null_hits)) ex_null_hits"
    by code_simp
  have 6: "not_mapping_on ex_null_hits [''hits'', ''total'', ''value'']" by code_simp
  from total_value_or_zero [OF 1] 2
  have "fst (total (wrap_search ex_hits) (store_of ex_hits)) = Inr (VInt 2)" by auto
  moreover from total_value_or_zero [OF 3] 4
  have "fst (total (wrap_search ?b) (store_of ?b)) = Inr (VInt 0)" by auto
  moreover from total_value_or_zero [OF 5] 6
  have "fst (total (wrap_search ex_null_hits) (store_of ex_null_hits)) = Inl AttributeError"
    by blast
  ultimately show ?thesis using 1 2 3 4 5 6 by blast
qed

section \<open>The loop of get_sources\<close>

lemma refs_from_length: "length (refs_from a n) = n"
  by (induction a n rule: refs_from.induct) simp_all

lemma refs_from_nth: "k < n \<Longrightarrow> refs_from a n ! k = VRef (a + k)"
proof (induction a n arbitrary: k rule: refs_from.induct)
  case (2 a n)
  then show ?case by (cases k) simp_all
qed simp

lemma update_members:
  "members_repr h kvs ms \<Longrightarrow> repr h x t \<Longrightarrow>
     members_repr h (AList.update k x kvs) (AList.update k t ms)"
  by (induction kvs ms rule: list_all2_induct) auto

lemma hit_parts:
  assumes "repr hb hit ht" and "jget ht ''_source'' = Some (JObj sm)"
  shows "\<exists>hkvs hm s skvs. ht = JObj hm \<and> deref hb hit = Some (ODict hkvs) \<and>
           members_repr hb hkvs hm \<and> map_of hkvs ''_source'' = Some s \<and>
           deref hb s = Some (ODict skvs) \<and> members_repr hb skvs sm"
proof -
  from assms(2) obtain hm where ht: "ht = JObj hm" by (cases ht) auto
  with assms(1) have "repr hb hit (JObj hm)" by simp
  from repr_obj [OF this] obtain hkvs where d: "deref hb hit = Some (ODict hkvs)"
    and l: "members_repr hb hkvs hm" by blast
  from members_lookup [OF l, of "''_source''"] assms(2) ht
  obtain s where s: "map_of hkvs ''_source'' = Some s" and "repr hb s (JObj sm)"
    by (auto simp: option_rel_Some2)
  from repr_obj [OF this(2)] obtain skvs where "deref hb s = Some (ODict skvs)"
    and "members_repr hb skvs sm" by blast
  with ht d l s show ?thesis by blast
qed

lemma merge_step:
  assumes d: "deref hb hit = Some (ODict hkvs)" and l: "members_repr hb hkvs hm"
    and c: "members_repr hb kvs sm" and m: "merge_key flag k (JObj hm) sm = Some sm'"
  shows "\<exists>kvs'. (if flag
            then seq (py_getitem hit k) (\<lambda>x. py_setitem (VRef (length hb + length X)) k x)
            else ret ()) (hb @ X @ [ODict kvs]) = (Inr (), hb @ X @ [ODict kvs']) \<and>
           members_repr hb kvs' sm'"
proof (cases flag)
  case False
  with m c show ?thesis by (auto simp: merge_key_def ret_def)
next
  case True
  with m obtain t where t: "map_of hm k = Some t" and sm': "sm' = AList.update k t sm"
    by (auto simp: merge_key_def)
  from members_lookup [OF l, of k] t obtain x where x: "map_of hkvs k = Some x"
    and r: "repr hb x t" by (auto simp: option_rel_Some2)
  let ?H = "hb @ X @ [ODict kvs]"
  have g: "py_getitem hit k ?H = (Inr x, ?H)"
    using py_getitem_dict [OF deref_append [OF d, of "X @ [ODict kvs]"], of k] x by simp
  have "deref ?H (VRef (length hb + length X)) = Some (ODict kvs)"
    by (simp add: deref_def nth_append)
  from py_setitem_dict [OF this, of k x]
  have s: "py_setitem (VRef (length hb + length X)) k x ?H =
      (Inr (), hb @ X @ [ODict (AList.update k x kvs)])"
    by (simp add: list_update_append)
  from g s True update_members [OF c r, of k] sm' show ?thesis
    by (auto simp: seq_def)
qed

lemma loop_body:
  assumes r: "repr hb hit ht" and w: "source_with iid isc ht = Some t'"
    and i: "i < length X" and xi: "X ! i = OList xs"
  shows "\<exists>kvs ms. t' = JObj ms \<and> members_repr hb kvs ms \<and>
     get_sources_loop iid isc (VRef (length hb + i)) (hit # rest) (hb @ X) =
     get_sources_loop iid isc (VRef (length hb + i)) rest
       (hb @ (X[i := OList (xs @ [VRef (length hb + length X)])] @ [ODict kvs]))"
proof -
  from w obtain sm sm1 sm2 where src: "jget ht ''_source'' = Some (JObj sm)"
    and m1: "merge_key iid ''_id'' ht sm = Some sm1"
    and m2: "merge_key isc ''_score'' ht sm1 = Some sm2" and t': "t' = JObj sm2"
    by (auto simp: source_with_def split: option.splits json.splits)
  from hit_parts [OF r src] obtain hkvs hm s skvs where ht: "ht = JObj hm"
    and d: "deref hb hit = Some (ODict hkvs)" and l: "members_repr hb hkvs hm"
    and s: "map_of hkvs ''_source'' = Some s" and ds: "deref hb s = Some (ODict skvs)"
    and ls: "members_repr hb skvs sm" by blast
  let ?a = "length hb + length X"
  have 1: "py_getitem hit ''_source'' (hb @ X) = (Inr s, hb @ X)"
    using py_getitem_dict [OF deref_append [OF d, of X], of "''_source''"] s by simp
  have 2: "py_copy s (hb @ X) = (Inr (VRef ?a), hb @ X @ [ODict skvs])"
    using py_copy_obj [OF deref_append [OF ds, of X]] by simp
  from merge_step [OF d l ls, of iid "''_id''" sm1 X] m1 ht obtain kvs1
    where 3: "(if iid then seq (py_getitem hit ''_id'') (\<lambda>x. py_setitem (VRef ?a) ''_id'' x)
               else ret ()) (hb @ X @ [ODict skvs]) = (Inr (), hb @ X @ [ODict kvs1])"
      and l1: "members_repr hb kvs1 sm1" by auto
  from merge_step [OF d l l1, of isc "''_score''" sm2 X] m2 ht obtain kvs2
    where 4: "(if isc then seq (py_getitem hit ''_score'') (\<lambda>x. py_setitem (VRef ?a) ''_score'' x)
               else ret ()) (hb @ X @ [ODict kvs1]) = (Inr (), hb @ X @ [ODict kvs2])"
      and l2: "members_repr hb kvs2 sm2" by auto
  have "deref (hb @ X @ [ODict kvs2]) (VRef (length hb + i)) = Some (OList xs)"
    using i xi by (simp add: deref_def nth_append)
  from py_append_list [OF this, of "VRef ?a"] i
  have 5: "py_append (VRef (length hb + i)) (VRef ?a) (hb @ X @ [ODict kvs2]) =
      (Inr (), hb @ (X[i := OList (xs @ [VRef ?a])] @ [ODict kvs2]))"
    by (simp add: list_update_append)
  have "get_sources_loop iid isc (VRef (length hb + i)) (hit # rest) (hb @ X) =
     get_sources_loop iid isc (VRef (length hb + i)) rest
       (hb @ (X[i := OList (xs @ [VRef ?a])] @ [ODict kvs2]))"
    using 1 2 3 4 5 by (simp add: seq_def)
  with t' l2 show ?thesis by blast
qed

lemma get_sources_loop_ok:
  assumes "list_all2 (repr hb) items hs"
    and "list_all2 (\<lambda>ht t'. source_with iid isc ht = Some t') hs outs"
    and "i < length X" and "X ! i = OList xs"
  shows "\<exists>dicts. get_sources_loop iid isc (VRef (length hb + i)) items (hb @ X) =
           (Inr (), hb @ (X[i := OList (xs @ refs_from (length hb + length X) (length items))]
                          @ map ODict dicts)) \<and>
           list_all2 (\<lambda>kvs t'. \<exists>ms. t' = JObj ms \<and> members_repr hb kvs ms) dicts outs"
  using assms
proof (induction items arbitrary: hs outs X xs)
  case Nil
  from Nil.prems(4) have "X[i := OList xs] = X" by (metis list_update_id)
  with Nil.prems(1,2) show ?case by (simp add: ret_def)
next
  case (Cons hit rest)
  from Cons.prems(1) obtain ht hs' where hs: "hs = ht # hs'" and r: "repr hb hit ht"
    and rs: "list_all2 (repr hb) rest hs'" by (auto simp: list_all2_Cons1)
  from Cons.prems(2) hs obtain t' outs' where outs: "outs = t' # outs'"
    and w: "source_with iid isc ht = Some t'"
    and ws: "list_all2 (\<lambda>ht t'. source_with iid isc ht = Some t') hs' outs'"
    by (auto simp: list_all2_Cons1)
  let ?a = "length hb + length X"
  from loop_body [OF r w Cons.prems(3,4), of rest] obtain kvs ms
    where t': "t' = JObj ms" and l: "members_repr hb kvs ms"
      and step: "get_sources_loop iid isc (VRef (length hb + i)) (hit # rest) (hb @ X) =
        get_sources_loop iid isc (VRef (length hb + i)) rest
          (hb @ (X[i := OList (xs @ [VRef ?a])] @ [ODict kvs]))" by blast
  let ?X1 = "X[i := OList (xs @ [VRef ?a])] @ [ODict kvs]"
  from Cons.prems(3) have i1: "i < length ?X1" and x1: "?X1 ! i = OList (xs @ [VRef ?a])"
    by (simp_all add: nth_append)
  from Cons.IH [OF rs ws i1 x1] obtain dicts
    where run: "get_sources_loop iid isc (VRef (length hb + i)) rest (hb @ ?X1) =
           (Inr (), hb @ (?X1[i := OList ((xs @ [VRef ?a]) @
                 refs_from (length hb + length ?X1) (length rest))] @ map ODict dicts))"
      and ld: "list_all2 (\<lambda>kvs t'. \<exists>ms. t' = JObj ms \<and> members_repr hb kvs ms) dicts outs'"
    by blast
  have "get_sources_loop iid isc (VRef (length hb + i)) (hit # rest) (hb @ X) =
        (Inr (), hb @ (X[i := OList (xs @ refs_from ?a (length (hit # rest)))]
                       @ map ODict (kvs # dicts)))"
    using step run Cons.prems(3) by (simp add: list_update_append)
  moreover have "list_all2 (\<lambda>kvs t'. \<exists>ms. t' = JObj ms \<and> members_repr hb kvs ms)
      (kvs # dicts) outs"
    using ld l t' outs by simp
  ultimately show ?case by blast
qed

lemma hits_run:
  assumes "repr h (sr_json self) body" and "jpath body [''hits'', ''hits''] = Some t"
  shows "\<exists>v. hits self (h @ X) = (Inr v, h @ X @ [ODict [], OList []]) \<and> repr h v t"
proof -
  from assms(2) obtain hh where 1: "jget body ''hits'' = Some hh" and 2: "jget hh ''hits'' = Some t"
    by (auto split: option.splits)
  from py_get_new_repr [OF assms(1) jget_obj [OF 1], of "''hits''" "ODict []" X] 1 obtain x
    where s1: "py_get_new (sr_json self) ''hits'' (ODict []) (h @ X) = (Inr x, h @ X @ [ODict []])"
      and x: "repr h x hh" by auto
  from py_get_new_repr [OF x jget_obj [OF 2], of "''hits''" "OList []" "X @ [ODict []]"] 2
  obtain v where s2: "py_get_new x ''hits'' (OList []) (h @ X @ [ODict []]) =
        (Inr v, h @ X @ [ODict [], OList []])" and v: "repr h v t" by auto
  from s1 s2 have "hits self (h @ X) = (Inr v, h @ X @ [ODict [], OList []])"
    by (simp add: hits_def seq_def)
  with v show ?thesis by blast
qed

lemma iter_array:
  assumes "repr h v (JArr hs)"
  shows "\<exists>items. py_iter v (h @ X) = (Inr items, h @ X) \<and> list_all2 (repr h) items hs"
proof -
  from repr_arr [OF assms] obtain items where d: "deref h v = Some (OList items)"
    and l: "list_all2 (repr h) items hs" by blast
  from py_iter_list [OF deref_append [OF d, of X]] l show ?thesis by blast
qed

lemma get_sources_flags_ok:
  assumes r: "repr h (sr_json self) body"
    and p: "jpath body [''hits'', ''hits''] = Some (JArr hs)"
    and w: "list_all2 (\<lambda>ht t'. source_with iid isc ht = Some t') hs outs"
    and f: "iid \<or> isc"
  shows "\<exists>dicts. get_sources iid isc self h =
           (Inr (VRef (length h)),
            h @ [OList (refs_from (length h + 3) (length hs)), ODict [], OList []]
              @ map ODict dicts) \<and>
           list_all2 (\<lambda>kvs t'. \<exists>ms. t' = JObj ms \<and> members_repr h kvs ms) dicts outs"
proof -
  from hits_run [OF r p, of "[OList []]"] obtain v
    where 1: "hits self (h @ [OList []]) = (Inr v, h @ [OList [], ODict [], OList []])"
      and v: "repr h v (JArr hs)" by auto
  from iter_array [OF v, of "[OList [], ODict [], OList []]"] obtain items
    where 2: "py_iter v (h @ [OList [], ODict [], OList []]) =
          (Inr items, h @ [OList [], ODict [], OList []])"
      and l: "list_all2 (repr h) items hs" by blast
  from l have len: "length items = length hs" by (rule list_all2_lengthD)
  from get_sources_loop_ok [OF l w, of 0 "[OList [], ODict [], OList []]" "[]"] obtain dicts
    where 3: "get_sources_loop iid isc (VRef (length h)) items (h @ [OList [], ODict [], OList []]) =
           (Inr (), h @ ([OList (refs_from (length h + 3) (length items)), ODict [], OList []]
                          @ map ODict dicts))"
      and ld: "list_all2 (\<lambda>kvs t'. \<exists>ms. t' = JObj ms \<and> members_repr h kvs ms) dicts outs"
    by (auto simp: numeral_3_eq_3)
  from f 1 2 3 len have "get_sources iid isc self h =
           (Inr (VRef (length h)),
            h @ [OList (refs_from (length h + 3) (length hs)), ODict [], OList []]
              @ map ODict dicts)"
    by (auto simp: get_sources_def seq_def py_new_eq ret_def)
  with ld show ?thesis by blast
qed

lemma refs_from_distinct: "distinct (refs_from a n)"
  by (auto simp: distinct_conv_nth refs_from_length refs_from_nth)

lemma list_all2_choice: "\<forall>x \<in> set xs. \<exists>y. P x y \<Longrightarrow> \<exists>ys. list_all2 P xs ys"
proof (induction xs)
  case (Cons x xs)
  then obtain y ys where "P x y" "list_all2 P xs ys" by auto
  then have "list_all2 P (x # xs) (y # ys)" by simp
  then show ?case ..
next
  case Nil
  have "list_all2 P [] []" by simp
  then show ?case ..
qed

lemma source_with_id:
  "jget hit ''_source'' = Some (JObj sm) \<Longrightarrow> jget hit ''_id'' = Some i \<Longrightarrow>
     source_with True False hit = Some (JObj (AList.update ''_id'' i sm))"
  by (simp add: source_with_def merge_key_def)

text \<open>
  C5. When every hit of the response has a source mapping and an \<^verbatim>\<open>_id\<close>,
  \<^verbatim>\<open>get_sources(include_id=True)\<close> returns a new list with one mapping per hit, in hit
  order. The mapping for a hit is an object that did not exist before the call, a
  different one for each hit; it has the fields of the hit's source mapping with the key
  \<^verbatim>\<open>_id\<close> set to the hit's identifier, in place of an \<^verbatim>\<open>_id\<close> field of the source if
  there is one. The objects that existed before the call, the source mappings among
  them, are unchanged.
\<close>

theorem get_sources_include_id:
  assumes r: "repr h (sr_json self) body"
    and p: "jpath body [''hits'', ''hits''] = Some (JArr hs)"
    and k: "\<forall>hit \<in> set hs. \<exists>sm i. jget hit ''_source'' = Some (JObj sm) \<and> jget hit ''_id'' = Some i"
  shows "\<exists>items h'. get_sources True False self h = (Inr (VRef (length h)), h') \<and>
           take (length h) h' = h \<and> length h < length h' \<and> h' ! length h = OList items \<and>
           length items = length hs \<and> distinct items \<and>
           (\<forall>n < length hs. \<exists>b sm i. items ! n = VRef b \<and> length h < b \<and> b < length h' \<and>
               jget (hs ! n) ''_source'' = Some (JObj sm) \<and> jget (hs ! n) ''_id'' = Some i \<and>
               repr h' (VRef b) (JObj (AList.update ''_id'' i sm)) \<and>
               jget (JObj (AList.update ''_id'' i sm)) ''_id'' = Some i)"
proof -
  from k have "\<forall>hit \<in> set hs. \<exists>t'. source_with True False hit = Some t'"
    by (auto dest!: bspec simp: source_with_id)
  from list_all2_choice [OF this] obtain outs
    where w: "list_all2 (\<lambda>ht t'. source_with True False ht = Some t') hs outs" ..
  from get_sources_flags_ok [OF r p w] obtain dicts
    where run: "get_sources True False self h =
           (Inr (VRef (length h)),
            h @ [OList (refs_from (length h + 3) (length hs)), ODict [], OList []]
              @ map ODict dicts)"
      and ld: "list_all2 (\<lambda>kvs t'. \<exists>ms. t' = JObj ms \<and> members_repr h kvs ms) dicts outs"
    by auto
  let ?items = "refs_from (length h + 3) (length hs)"
  let ?h' = "h @ [OList ?items, ODict [], OList []] @ map ODict dicts"
  from list_all2_lengthD [OF w] list_all2_lengthD [OF ld]
  have len: "length outs = length hs" "length dicts = length hs" by simp_all
  have each: "\<exists>b sm i. ?items ! n = VRef b \<and> length h < b \<and> b < length ?h' \<and>
               jget (hs ! n) ''_source'' = Some (JObj sm) \<and> jget (hs ! n) ''_id'' = Some i \<and>
               repr ?h' (VRef b) (JObj (AList.update ''_id'' i sm)) \<and>
               jget (JObj (AList.update ''_id'' i sm)) ''_id'' = Some i"
    if n: "n < length hs" for n
  proof -
    from k n obtain sm i where s: "jget (hs ! n) ''_source'' = Some (JObj sm)"
      and i: "jget (hs ! n) ''_id'' = Some i" by (meson nth_mem)
    from w n have "source_with True False (hs ! n) = Some (outs ! n)"
      by (simp add: list_all2_conv_all_nth)
    with source_with_id [OF s i] have o: "outs ! n = JObj (AList.update ''_id'' i sm)" by simp
    from ld n len have "\<exists>ms. outs ! n = JObj ms \<and> members_repr h (dicts ! n) ms"
      by (simp add: list_all2_conv_all_nth)
    with o have m: "members_repr h (dicts ! n) (AList.update ''_id'' i sm)" by simp
    let ?b = "length h + 3 + n"
    have d: "deref ?h' (VRef ?b) = Some (ODict (dicts ! n))"
      using n len by (simp add: deref_def nth_append)
    from repr_members_append [OF m, of "[OList ?items, ODict [], OList []] @ map ODict dicts"] d
    have "repr ?h' (VRef ?b) (JObj (AList.update ''_id'' i sm))" by simp
    moreover have "?items ! n = VRef ?b" using n by (simp add: refs_from_nth)
    moreover have "?b < length ?h'" using n len by simp
    moreover have "jget (JObj (AList.update ''_id'' i sm)) ''_id'' = Some i"
      by (simp add: update_conv')
    ultimately show ?thesis using s i by auto
  qed
  have "take (length h) ?h' = h" "length h < length ?h'" "?h' ! length h = OList ?items"
    "length ?items = length hs" "distinct ?items"
    by (simp_all add: refs_from_length refs_from_distinct)
  with run each show ?thesis by blast
qed

theorem get_sources_include_id_witness:
  "repr (store_of ex_hits) (sr_json (wrap_search ex_hits)) ex_hits \<and>
   jpath ex_hits [''hits'', ''hits''] = Some (JArr ex_hit_list) \<and>
   length ex_hit_list = 2 \<and>
   jget (ex_hit_list ! 0) ''_source'' = Some (JObj [(''a'', JInt 1), (''_id'', JStr ''old'')]) \<and>
   jget (ex_hit_list ! 0) ''_id'' = Some (JStr ''x1'') \<and>
   jget (ex_hit_list ! 1) ''_source'' = Some (JObj [(''b'', JInt 5)]) \<and>
   jget (ex_hit_list ! 1) ''_id'' = Some (JStr ''x2'') \<and>
   (\<exists>h'. get_sources True False (wrap_search ex_hits) (store_of ex_hits) = (Inr (VRef 8), h') \<and>
      take 8 h' = store_of ex_hits \<and> h' ! 8 = OList [VRef 11, VRef 12] \<and>
      h' ! 11 = ODict [(''a'', VInt 1), (''_id'', VStr ''x1'')] \<and>
      h' ! 12 = ODict [(''b'', VInt 5), (''_id'', VStr ''x2'')] \<and>
      store_of ex_hits ! 1 = ODict [(''a'', VInt 1), (''_id'', VStr ''old'')])"
proof -
  have 1: "repr (store_of ex_hits) (sr_json (wrap_search ex_hits)) ex_hits" by code_simp
  have 2: "jpath ex_hits [''hits'', ''hits''] = Some (JArr ex_hit_list)" by code_simp
  have 3: "\<forall>hit \<in> set ex_hit_list.
      \<exists>sm i. jget hit ''_source'' = Some (JObj sm) \<and> jget hit ''_id'' = Some i"
    by (simp add: ex_hit_list_def)
  have len: "length (store_of ex_hits) = 8" by code_simp
  have run: "(case get_sources True False (wrap_search ex_hits) (store_of ex_hits) of
      (r, h') \<Rightarrow> (r, h' ! 8, h' ! 11, h' ! 12)) =
      (Inr (VRef 8), OList [VRef 11, VRef 12],
       ODict [(''a'', VInt 1), (''_id'', VStr ''x1'')],
       ODict [(''b'', VInt 5), (''_id'', VStr ''x2'')])" by code_simp
  have old: "store_of ex_hits ! 1 = ODict [(''a'', VInt 1), (''_id'', VStr ''old'')]"
    by code_simp
  from get_sources_include_id [OF 1 2 3] len obtain h'
    where g: "get_sources True False (wrap_search ex_hits) (store_of ex_hits) = (Inr (VRef 8), h')"
      and t: "take 8 h' = store_of ex_hits" by auto
  from run g have "h' ! 8 = OList [VRef 11, VRef 12] \<and>
      h' ! 11 = ODict [(''a'', VInt 1), (''_id'', VStr ''x1'')] \<and>
      h' ! 12 = ODict [(''b'', VInt 5), (''_id'', VStr ''x2'')]" by simp
  moreover have "length ex_hit_list = 2 \<and>
     jget (ex_hit_list ! 0) ''_source'' = Some (JObj [(''a'', JInt 1), (''_id'', JStr ''old'')]) \<and>
     jget (ex_hit_list ! 0) ''_id'' = Some (JStr ''x1'') \<and>
     jget (ex_hit_list ! 1) ''_source'' = Some (JObj [(''b'', JInt 5)]) \<and>
     jget (ex_hit_list ! 1) ''_id'' = Some (JStr ''x2'')"
    by (simp add: ex_hit_list_def)
  ultimately show ?thesis using 1 2 g t old by blast
qed

section \<open>Sequences of calls\<close>

lemma triple_keeps: "triple n c Q \<Longrightarrow> n \<le> length h \<Longrightarrow> keeps n h (snd (c h))"
  by (cases "c h") (auto simp: triple_def)

lemma keeps_below:
  assumes "keeps (length h) h h1" and "n \<le> length h"
  shows "keeps n h h1"
proof -
  from assms(1) have l: "length h \<le> length h1" and t: "take (length h) h1 = h"
    by (simp_all add: keeps_def)
  from t have "take n (take (length h) h1) = take n h" by simp
  with assms(2) have "take n h1 = take n h" by (simp add: min_absorb1)
  with l show ?thesis by (simp add: keeps_def)
qed

lemma perform_keeps:
  assumes n: "n \<le> length h" and p: "perform sr er c h = Some h1"
  shows "keeps n h h1"
proof (cases c)
  case (GetSources a b)
  with p have "h1 = snd (get_sources a b sr h)" by simp
  with triple_keeps [OF triple_get_sources n] show ?thesis by simp
next
  case GetIds
  with p have "h1 = snd (get_ids sr h)" by simp
  with triple_keeps [OF triple_get_ids n] show ?thesis by simp
next
  case Total
  with p have "h1 = snd (total sr h)" by simp
  with triple_keeps [OF triple_total n] show ?thesis by simp
next
  case Hits
  with p have "h1 = snd (hits sr h)" by simp
  with triple_keeps [OF triple_hits n] show ?thesis by simp
next
  case (ToDataframe cs a b)
  with p have "h1 = snd (to_dataframe cs a b sr h)" by simp
  with triple_keeps [OF triple_to_dataframe n] show ?thesis by simp
next
  case (GetBreakdown m)
  with p obtain r where g: "get_breakdown m er h = Some (r, h1)" by auto
  from get_breakdown_keeps [OF g] have "keeps (length h) h h1" by simp
  from keeps_below [OF this n] show ?thesis .
qed

lemma run_calls_keeps:
  "n \<le> length h \<Longrightarrow> run_calls sr er cs h = Some h' \<Longrightarrow> keeps n h h'"
proof (induction cs arbitrary: h)
  case Nil
  then show ?case by (simp add: keeps_refl)
next
  case (Cons c cs)
  from Cons.prems(2) obtain h1 where p: "perform sr er c h = Some h1"
    and r: "run_calls sr er cs h1 = Some h'" by (auto split: option.splits)
  from perform_keeps [OF Cons.prems(1) p] have k: "keeps n h h1" .
  from Cons.IH [OF keeps_length [OF Cons.prems(1) k] r] k show ?case
    by (blast intro: keeps_trans)
qed

lemma repr_take:
  assumes "repr h v t" and "take (length h) h' = h"
  shows "repr h' v t"
proof -
  from assms(2) have "h' = h @ drop (length h) h'" by (metis append_take_drop_id)
  with repr_append [OF assms(1), of "drop (length h) h'"] show ?thesis by simp
qed

text \<open>
  C8. No call changes an object that existed before it. After any sequence of calls to
  \<^verbatim>\<open>get_sources\<close> (with any flags), \<^verbatim>\<open>get_ids\<close>, \<^verbatim>\<open>total\<close>, \<^verbatim>\<open>hits\<close>,
  \<^verbatim>\<open>to_dataframe\<close> and \<^verbatim>\<open>get_breakdown\<close>, whether they returned or raised, the
  objects of the store the sequence started from are all there and unchanged, so the
  wrapped responses represent the same JSON trees as before.
\<close>

theorem calls_leave_response_unchanged:
  assumes "run_calls sr er cs h = Some h'"
  shows "take (length h) h' = h \<and> length h \<le> length h' \<and>
         (\<forall>v t. repr h v t \<longrightarrow> repr h' v t)"
proof -
  from run_calls_keeps [OF _ assms, of "length h"]
  have "take (length h) h' = h" and "length h \<le> length h'" by (simp_all add: keeps_def)
  with repr_take show ?thesis by blast
qed

theorem calls_leave_response_unchanged_witness:
  "run_calls (wrap_search ex_hits) (wrap_explain ex_hits)
     [GetSources True True, GetIds, Total, Hits, ToDataframe None True False,
      GetBreakdown 1, GetSources False False, ToDataframe (Some [''a'']) False True]
     (store_of ex_hits) \<noteq> None \<and>
   (\<exists>h'. run_calls (wrap_search ex_hits) (wrap_explain ex_hits)
     [GetSources True True, GetIds, Total, Hits, ToDataframe None True False,
      GetBreakdown 1, GetSources False False, ToDataframe (Some [''a'']) False True]
     (store_of ex_hits) = Some h' \<and>
     take 8 h' = store_of ex_hits \<and> repr h' (sr_json (wrap_search ex_hits)) ex_hits)"
proof -
  let ?cs = "[GetSources True True, GetIds, Total, Hits, ToDataframe None True False,
      GetBreakdown 1, GetSources False False, ToDataframe (Some [''a'']) False True]"
  have 1: "run_calls (wrap_search ex_hits) (wrap_explain ex_hits) ?cs (store_of ex_hits) \<noteq> None"
    by code_simp
  have len: "length (store_of ex_hits) = 8" by code_simp
  have r: "repr (store_of ex_hits) (sr_json (wrap_search ex_hits)) ex_hits" by code_simp
  have "take 8 h' = store_of ex_hits \<and> repr h' (sr_json (wrap_search ex_hits)) ex_hits"
    if "run_calls (wrap_search ex_hits) (wrap_explain ex_hits) ?cs (store_of ex_hits) = Some h'"
    for h'
    using calls_leave_response_unchanged [OF that] len r by auto
  with 1 show ?thesis by auto
qed

section \<open>Tables\<close>

lemma first_seen_set: "set (first_seen ks) = set ks"
  by (simp add: first_seen_def)

lemma columns_of_mappings:
  "c \<in> set (first_seen (concat (map (map fst) ms))) \<longleftrightarrow> (\<exists>m \<in> set ms. map_of m c \<noteq> None)"
  by (auto simp: first_seen_set map_of_eq_None_iff)

lemma cell_of_row:
  "c \<in> set cols \<Longrightarrow> cell cols (map f cols) c = f c"
proof (induction cols)
  case (Cons a cols)
  then show ?case by (cases "c = a") (auto simp: cell_def)
qed simp

lemma pd_DataFrame_mappings:
  assumes "deref h data = Some (OList vs)" and "mappings_of h vs = Some ms"
  shows "pd_DataFrame data h =
     (Inr \<lparr>df_columns = first_seen (concat (map (map fst) ms)),
           df_rows = map (\<lambda>m. map (map_of m) (first_seen (concat (map (map fst) ms)))) ms\<rparr>, h)"
  using assms by (simp add: pd_DataFrame_def Let_def)

lemma df_getitem_mappings:
  "df_getitem \<lparr>df_columns = first_seen (concat (map (map fst) ms)),
               df_rows = map (\<lambda>m. map (map_of m) (first_seen (concat (map (map fst) ms)))) ms\<rparr>
     cs h =
   (if \<forall>c \<in> set cs. \<exists>m \<in> set ms. map_of m c \<noteq> None
    then (Inr \<lparr>df_columns = cs, df_rows = map (\<lambda>m. map (map_of m) cs) ms\<rparr>, h)
    else (Inl KeyError, h))"
proof -
  define cols where "cols = first_seen (concat (map (map fst) ms))"
  have mem: "c \<in> set cols \<longleftrightarrow> (\<exists>m \<in> set ms. map_of m c \<noteq> None)" for c
    unfolding cols_def by (rule columns_of_mappings)
  have run: "df_getitem \<lparr>df_columns = cols, df_rows = map (\<lambda>m. map (map_of m) cols) ms\<rparr> cs h =
     (if \<forall>c \<in> set cs. c \<in> set cols
      then (Inr \<lparr>df_columns = cs,
                 df_rows = map (\<lambda>m. map (cell cols (map (map_of m) cols)) cs) ms\<rparr>, h)
      else (Inl KeyError, h))"
    by (simp add: df_getitem_def ret_def raise_def comp_def)
  have rows: "map (\<lambda>m. map (cell cols (map (map_of m) cols)) cs) ms =
              map (\<lambda>m. map (map_of m) cs) ms" if "\<forall>c \<in> set cs. c \<in> set cols"
    using that by (simp add: cell_of_row)
  have "df_getitem \<lparr>df_columns = cols, df_rows = map (\<lambda>m. map (map_of m) cols) ms\<rparr> cs h =
     (if \<forall>c \<in> set cs. c \<in> set cols
      then (Inr \<lparr>df_columns = cs, df_rows = map (\<lambda>m. map (map_of m) cs) ms\<rparr>, h)
      else (Inl KeyError, h))"
    using run rows by (cases "\<forall>c \<in> set cs. c \<in> set cols") simp_all
  then show ?thesis
    unfolding mem unfolding cols_def .
qed

text \<open>
  C3, as amended. For a non-empty list of column names, when \<^verbatim>\<open>get_sources\<close> has
  returned a list of mappings, \<^verbatim>\<open>to_dataframe\<close> returns the table with exactly the
  named columns in the given order, each row holding the row's values under those
  names, if every name occurs in some row; it raises \<open>KeyError\<close> if a name occurs in no
  row.
\<close>

theorem to_dataframe_projects:
  assumes "cs \<noteq> []"
    and "get_sources include_id include_score self h = (Inr data, h1)"
    and "deref h1 data = Some (OList vs)" and "mappings_of h1 vs = Some ms"
  shows "to_dataframe (Some cs) include_id include_score self h =
     (if \<forall>c \<in> set cs. \<exists>m \<in> set ms. map_of m c \<noteq> None
      then (Inr \<lparr>df_columns = cs, df_rows = map (\<lambda>m. map (map_of m) cs) ms\<rparr>, h1)
      else (Inl KeyError, h1))"
proof -
  from assms(1) have "truthy (Some cs)" by (cases cs) simp_all
  with assms(2) pd_DataFrame_mappings [OF assms(3,4)] df_getitem_mappings [of ms cs h1]
  show ?thesis by (simp add: to_dataframe_def seq_def)
qed

text \<open>
  C10. With the empty list for \<^verbatim>\<open>columns\<close>, \<^verbatim>\<open>to_dataframe\<close> does what it does
  with no \<^verbatim>\<open>columns\<close> at all: it returns the table built from the sources, with
  every column.
\<close>

theorem to_dataframe_empty_columns:
  "to_dataframe (Some []) include_id include_score self h =
     to_dataframe None include_id include_score self h \<and>
   (\<forall>data h1 df h2. get_sources include_id include_score self h = (Inr data, h1) \<and>
       pd_DataFrame data h1 = (Inr df, h2) \<longrightarrow>
       to_dataframe (Some []) include_id include_score self h = (Inr df, h2))"
  by (auto simp: to_dataframe_def seq_def ret_def)

theorem to_dataframe_projects_witness:
  "[''b'', ''a''] \<noteq> [] \<and>
   get_sources False False (wrap_search ex_hits) (store_of ex_hits) =
     (Inr (VRef 10), snd (get_sources False False (wrap_search ex_hits) (store_of ex_hits))) \<and>
   deref (snd (get_sources False False (wrap_search ex_hits) (store_of ex_hits))) (VRef 10) =
     Some (OList [VRef 1, VRef 3]) \<and>
   mappings_of (snd (get_sources False False (wrap_search ex_hits) (store_of ex_hits)))
     [VRef 1, VRef 3] = Some [[(''a'', VInt 1), (''_id'', VStr ''old'')], [(''b'', VInt 5)]] \<and>
   fst (to_dataframe (Some [''b'', ''a'']) False False (wrap_search ex_hits) (store_of ex_hits)) =
     Inr \<lparr>df_columns = [''b'', ''a''],
          df_rows = [[None, Some (VInt 1)], [Some (VInt 5), None]]\<rparr> \<and>
   fst (to_dataframe (Some [''b'', ''x'']) False False (wrap_search ex_hits) (store_of ex_hits)) =
     Inl KeyError"
proof -
  let ?h1 = "snd (get_sources False False (wrap_search ex_hits) (store_of ex_hits))"
  have 1: "get_sources False False (wrap_search ex_hits) (store_of ex_hits) = (Inr (VRef 10), ?h1)"
    by code_simp
  have 2: "deref ?h1 (VRef 10) = Some (OList [VRef 1, VRef 3])" by code_simp
  have 3: "mappings_of ?h1 [VRef 1, VRef 3] =
      Some [[(''a'', VInt 1), (''_id'', VStr ''old'')], [(''b'', VInt 5)]]" by code_simp
  have a: "[''b'', ''a''] \<noteq> []" and b: "[''b'', ''x''] \<noteq> []" by simp_all
  from to_dataframe_projects [OF a 1 2 3]
  have "fst (to_dataframe (Some [''b'', ''a'']) False False (wrap_search ex_hits) (store_of ex_hits)) =
     Inr \<lparr>df_columns = [''b'', ''a''],
          df_rows = [[None, Some (VInt 1)], [Some (VInt 5), None]]\<rparr>" by simp
  moreover from to_dataframe_projects [OF b 1 2 3]
  have "fst (to_dataframe (Some [''b'', ''x'']) False False (wrap_search ex_hits) (store_of ex_hits)) =
     Inl KeyError" by simp
  ultimately show ?thesis using 1 2 3 by simp
qed

text \<open>
  The claim C3 as the spec states it fails for the empty list: \<^verbatim>\<open>columns=[]\<close> gives
  the table with all its columns, not a table with none.
\<close>

theorem to_dataframe_empty_list_counterexample:
  "map_sum id df_columns
     (fst (to_dataframe (Some []) False False (wrap_search ex_hits) (store_of ex_hits))) =
   Inr [''a'', ''_id'', ''b'']"
  by code_simp

theorem to_dataframe_empty_columns_witness:
  "get_sources True True (wrap_search ex_hits) (store_of ex_hits) =
     (Inr (VRef 8), snd (get_sources True True (wrap_search ex_hits) (store_of ex_hits))) \<and>
   pd_DataFrame (VRef 8) (snd (get_sources True True (wrap_search ex_hits) (store_of ex_hits))) =
     (Inr \<lparr>df_columns = [''a'', ''_id'', ''_score'', ''b''],
           df_rows = [[Some (VInt 1), Some (VStr ''x1''), Some (VInt 3), None],
                      [None, Some (VStr ''x2''), Some (VInt 2), Some (VInt 5)]]\<rparr>,
      snd (get_sources True True (wrap_search ex_hits) (store_of ex_hits))) \<and>
   fst (to_dataframe (Some []) True True (wrap_search ex_hits) (store_of ex_hits)) =
     Inr \<lparr>df_columns = [''a'', ''_id'', ''_score'', ''b''],
          df_rows = [[Some (VInt 1), Some (VStr ''x1''), Some (VInt 3), None],
                     [None, Some (VStr ''x2''), Some (VInt 2), Some (VInt 5)]]\<rparr>"
proof -
  let ?h1 = "snd (get_sources True True (wrap_search ex_hits) (store_of ex_hits))"
  let ?df = "\<lparr>df_columns = [''a'', ''_id'', ''_score'', ''b''],
           df_rows = [[Some (VInt 1), Some (VStr ''x1''), Some (VInt 3), None],
                      [None, Some (VStr ''x2''), Some (VInt 2), Some (VInt 5)]]\<rparr>"
  have 1: "get_sources True True (wrap_search ex_hits) (store_of ex_hits) = (Inr (VRef 8), ?h1)"
    by code_simp
  have 2: "pd_DataFrame (VRef 8) ?h1 = (Inr ?df, ?h1)" by code_simp
  from to_dataframe_empty_columns [of True True "wrap_search ex_hits" "store_of ex_hits"] 1 2
  have "to_dataframe (Some []) True True (wrap_search ex_hits) (store_of ex_hits) = (Inr ?df, ?h1)"
    by blast
  with 1 2 show ?thesis by simp
qed

section \<open>Hits that lack a key\<close>

lemma getitem_present:
  assumes "repr hb hit ht" and "jget ht k = Some t"
  shows "\<exists>x. py_getitem hit k (hb @ X) = (Inr x, hb @ X) \<and> repr hb x t"
proof -
  from repr_lookup [OF assms(1) jget_obj [OF assms(2)], of k] assms(2)
  obtain kvs x where d: "deref hb hit = Some (ODict kvs)" and x: "map_of kvs k = Some x"
    and r: "repr hb x t" by (auto simp: option_rel_Some2)
  from py_getitem_dict [OF deref_append [OF d, of X], of k] x r show ?thesis by simp
qed

lemma getitem_absent:
  assumes "repr hb hit ht" and "is_obj ht" and "jget ht k = None"
  shows "py_getitem hit k (hb @ X) = (Inl KeyError, hb @ X)"
proof -
  from repr_lookup [OF assms(1,2), of k] assms(3)
  obtain kvs where d: "deref hb hit = Some (ODict kvs)" and x: "map_of kvs k = None"
    by auto
  from py_getitem_dict [OF deref_append [OF d, of X], of k] x show ?thesis by simp
qed

lemma append_at:
  assumes "i < length X" and "X ! i = OList xs"
  shows "py_append (VRef (length hb + i)) x (hb @ X) = (Inr (), hb @ X[i := OList (xs @ [x])])"
proof -
  from assms have "deref (hb @ X) (VRef (length hb + i)) = Some (OList xs)"
    by (simp add: deref_def nth_append)
  from py_append_list [OF this, of x] assms(1) show ?thesis
    by (simp add: list_update_append)
qed

lemma ids_of_prefix:
  assumes "list_all2 (repr hb) pre hpre" and "\<forall>hit \<in> set hpre. jget hit ''_id'' \<noteq> None"
    and "i < length X" and "X ! i = OList xs"
  shows "\<exists>xs'. ids_of (VRef (length hb + i)) (pre @ rest) (hb @ X) =
           ids_of (VRef (length hb + i)) rest (hb @ X[i := OList xs'])"
  using assms
proof (induction pre arbitrary: hpre X xs)
  case Nil
  from Nil.prems(4) have "X[i := OList xs] = X" by (metis list_update_id)
  then have "ids_of (VRef (length hb + i)) ([] @ rest) (hb @ X) =
           ids_of (VRef (length hb + i)) rest (hb @ X[i := OList xs])" by simp
  then show ?case ..
next
  case (Cons hit pre)
  from Cons.prems(1) obtain ht hpre' where hp: "hpre = ht # hpre'" and r: "repr hb hit ht"
    and rs: "list_all2 (repr hb) pre hpre'" by (auto simp: list_all2_Cons1)
  from Cons.prems(2) hp obtain t where t: "jget ht ''_id'' = Some t"
    and ts: "\<forall>hit \<in> set hpre'. jget hit ''_id'' \<noteq> None" by auto
  from getitem_present [OF r t, of X] obtain x
    where g: "py_getitem hit ''_id'' (hb @ X) = (Inr x, hb @ X)" by blast
  note a = append_at [OF Cons.prems(3,4), of hb x]
  let ?X1 = "X[i := OList (xs @ [x])]"
  from Cons.prems(3) have i1: "i < length ?X1" and x1: "?X1 ! i = OList (xs @ [x])" by simp_all
  from Cons.IH [OF rs ts i1 x1] obtain xs'
    where "ids_of (VRef (length hb + i)) (pre @ rest) (hb @ ?X1) =
           ids_of (VRef (length hb + i)) rest (hb @ ?X1[i := OList xs'])" ..
  with g a have "ids_of (VRef (length hb + i)) ((hit # pre) @ rest) (hb @ X) =
           ids_of (VRef (length hb + i)) rest (hb @ X[i := OList xs'])"
    by (simp add: seq_def)
  then show ?case ..
qed

lemma ids_of_raises:
  assumes "list_all2 (repr hb) items (pre @ bad # post)"
    and "\<forall>hit \<in> set pre. jget hit ''_id'' \<noteq> None"
    and "is_obj bad" and "jget bad ''_id'' = None"
    and "i < length X" and "X ! i = OList xs"
  shows "fst (ids_of (VRef (length hb + i)) items (hb @ X)) = Inl KeyError"
proof -
  from assms(1) obtain ipre ibad ipost where it: "items = ipre @ ibad # ipost"
    and p: "list_all2 (repr hb) ipre pre" and b: "repr hb ibad bad"
    by (auto simp: list_all2_append2 list_all2_Cons2)
  from ids_of_prefix [OF p assms(2,5,6), of "ibad # ipost"] obtain xs'
    where "ids_of (VRef (length hb + i)) items (hb @ X) =
           ids_of (VRef (length hb + i)) (ibad # ipost) (hb @ X[i := OList xs'])"
    unfolding it ..
  with getitem_absent [OF b assms(3,4), of "X[i := OList xs']"] show ?thesis
    by (simp add: seq_def)
qed

lemma sources_of_prefix:
  assumes "list_all2 (repr hb) pre hpre" and "\<forall>hit \<in> set hpre. jget hit ''_source'' \<noteq> None"
    and "i < length X" and "X ! i = OList xs"
  shows "\<exists>xs'. sources_of (VRef (length hb + i)) (pre @ rest) (hb @ X) =
           sources_of (VRef (length hb + i)) rest (hb @ X[i := OList xs'])"
  using assms
proof (induction pre arbitrary: hpre X xs)
  case Nil
  from Nil.prems(4) have "X[i := OList xs] = X" by (metis list_update_id)
  then have "sources_of (VRef (length hb + i)) ([] @ rest) (hb @ X) =
           sources_of (VRef (length hb + i)) rest (hb @ X[i := OList xs])" by simp
  then show ?case ..
next
  case (Cons hit pre)
  from Cons.prems(1) obtain ht hpre' where hp: "hpre = ht # hpre'" and r: "repr hb hit ht"
    and rs: "list_all2 (repr hb) pre hpre'" by (auto simp: list_all2_Cons1)
  from Cons.prems(2) hp obtain t where t: "jget ht ''_source'' = Some t"
    and ts: "\<forall>hit \<in> set hpre'. jget hit ''_source'' \<noteq> None" by auto
  from getitem_present [OF r t, of X] obtain x
    where g: "py_getitem hit ''_source'' (hb @ X) = (Inr x, hb @ X)" by blast
  note a = append_at [OF Cons.prems(3,4), of hb x]
  let ?X1 = "X[i := OList (xs @ [x])]"
  from Cons.prems(3) have i1: "i < length ?X1" and x1: "?X1 ! i = OList (xs @ [x])" by simp_all
  from Cons.IH [OF rs ts i1 x1] obtain xs'
    where "sources_of (VRef (length hb + i)) (pre @ rest) (hb @ ?X1) =
           sources_of (VRef (length hb + i)) rest (hb @ ?X1[i := OList xs'])" ..
  with g a have "sources_of (VRef (length hb + i)) ((hit # pre) @ rest) (hb @ X) =
           sources_of (VRef (length hb + i)) rest (hb @ X[i := OList xs'])"
    by (simp add: seq_def)
  then show ?case ..
qed

lemma sources_of_raises:
  assumes "list_all2 (repr hb) items (pre @ bad # post)"
    and "\<forall>hit \<in> set pre. jget hit ''_source'' \<noteq> None"
    and "is_obj bad" and "jget bad ''_source'' = None"
    and "i < length X" and "X ! i = OList xs"
  shows "fst (sources_of (VRef (length hb + i)) items (hb @ X)) = Inl KeyError"
proof -
  from assms(1) obtain ipre ibad ipost where it: "items = ipre @ ibad # ipost"
    and p: "list_all2 (repr hb) ipre pre" and b: "repr hb ibad bad"
    by (auto simp: list_all2_append2 list_all2_Cons2)
  from sources_of_prefix [OF p assms(2,5,6), of "ibad # ipost"] obtain xs'
    where "sources_of (VRef (length hb + i)) items (hb @ X) =
           sources_of (VRef (length hb + i)) (ibad # ipost) (hb @ X[i := OList xs'])"
    unfolding it ..
  with getitem_absent [OF b assms(3,4), of "X[i := OList xs']"] show ?thesis
    by (simp add: seq_def)
qed

lemma loop_prefix:
  assumes "list_all2 (repr hb) pre hpre"
    and "\<forall>hit \<in> set hpre. source_with iid isc hit \<noteq> None"
    and "i < length X" and "X ! i = OList xs"
  shows "\<exists>X' xs'. i < length X' \<and> X' ! i = OList xs' \<and>
           get_sources_loop iid isc (VRef (length hb + i)) (pre @ rest) (hb @ X) =
           get_sources_loop iid isc (VRef (length hb + i)) rest (hb @ X')"
  using assms
proof (induction pre arbitrary: hpre X xs)
  case Nil
  then show ?case by auto
next
  case (Cons hit pre)
  from Cons.prems(1) obtain ht hpre' where hp: "hpre = ht # hpre'" and r: "repr hb hit ht"
    and rs: "list_all2 (repr hb) pre hpre'" by (auto simp: list_all2_Cons1)
  from Cons.prems(2) hp obtain t' where w: "source_with iid isc ht = Some t'"
    and ws: "\<forall>hit \<in> set hpre'. source_with iid isc hit \<noteq> None" by auto
  from loop_body [OF r w Cons.prems(3,4), of "pre @ rest"] obtain kvs
    where step: "get_sources_loop iid isc (VRef (length hb + i)) (hit # pre @ rest) (hb @ X) =
        get_sources_loop iid isc (VRef (length hb + i)) (pre @ rest)
          (hb @ (X[i := OList (xs @ [VRef (length hb + length X)])] @ [ODict kvs]))" by blast
  let ?X1 = "X[i := OList (xs @ [VRef (length hb + length X)])] @ [ODict kvs]"
  from Cons.prems(3) have i1: "i < length ?X1"
    and x1: "?X1 ! i = OList (xs @ [VRef (length hb + length X)])"
    by (simp_all add: nth_append)
  from Cons.IH [OF rs ws i1 x1] step show ?case by auto
qed

lemma loop_raises_step:
  assumes r: "repr hb hit ht" and l: "lacks iid isc ht"
  shows "fst (get_sources_loop iid isc (VRef (length hb + i)) (hit # rest) (hb @ X)) =
           Inl KeyError"
proof (cases "jget ht ''_source''")
  case None
  from l have "is_obj ht" by (simp add: lacks_def)
  from getitem_absent [OF r this None, of X] show ?thesis by (simp add: seq_def)
next
  case (Some st)
  with l obtain sm where st: "st = JObj sm"
    and m: "(iid \<and> jget ht ''_id'' = None) \<or> (isc \<and> jget ht ''_score'' = None)"
    by (cases st) (auto simp: lacks_def)
  from l have ob: "is_obj ht" by (simp add: lacks_def)
  from Some st have src: "jget ht ''_source'' = Some (JObj sm)" by simp
  from hit_parts [OF r src] obtain hkvs hm s skvs where ht: "ht = JObj hm"
    and d: "deref hb hit = Some (ODict hkvs)" and lh: "members_repr hb hkvs hm"
    and s: "map_of hkvs ''_source'' = Some s" and ds: "deref hb s = Some (ODict skvs)"
    and ls: "members_repr hb skvs sm" by blast
  let ?a = "length hb + length X"
  have 1: "py_getitem hit ''_source'' (hb @ X) = (Inr s, hb @ X)"
    using py_getitem_dict [OF deref_append [OF d, of X], of "''_source''"] s by simp
  have 2: "py_copy s (hb @ X) = (Inr (VRef ?a), hb @ X @ [ODict skvs])"
    using py_copy_obj [OF deref_append [OF ds, of X]] by simp
  show ?thesis
  proof (cases "iid \<and> jget ht ''_id'' = None")
    case True
    from getitem_absent [OF r ob, of "''_id''" "X @ [ODict skvs]"] True
    have "py_getitem hit ''_id'' (hb @ X @ [ODict skvs]) = (Inl KeyError, hb @ X @ [ODict skvs])"
      by simp
    with 1 2 True show ?thesis by (simp add: seq_def)
  next
    case False
    with m have sc: "isc" "jget ht ''_score'' = None" by auto
    from False obtain sm1 where m1: "merge_key iid ''_id'' ht sm = Some sm1"
      by (cases iid; cases "jget ht ''_id''") (auto simp: merge_key_def)
    from merge_step [OF d lh ls, of iid "''_id''" sm1 X] m1 ht obtain kvs1
      where 3: "(if iid then seq (py_getitem hit ''_id'') (\<lambda>x. py_setitem (VRef ?a) ''_id'' x)
               else ret ()) (hb @ X @ [ODict skvs]) = (Inr (), hb @ X @ [ODict kvs1])"
      by auto
    from getitem_absent [OF r ob sc(2), of "X @ [ODict kvs1]"]
    have 4: "py_getitem hit ''_score'' (hb @ X @ [ODict kvs1]) =
        (Inl KeyError, hb @ X @ [ODict kvs1])" by simp
    from 1 2 3 4 sc(1) show ?thesis by (simp add: seq_def)
  qed
qed

lemma loop_raises:
  assumes "list_all2 (repr hb) items (pre @ bad # post)"
    and "\<forall>hit \<in> set pre. source_with iid isc hit \<noteq> None"
    and "lacks iid isc bad"
    and "i < length X" and "X ! i = OList xs"
  shows "fst (get_sources_loop iid isc (VRef (length hb + i)) items (hb @ X)) = Inl KeyError"
proof -
  from assms(1) obtain ipre ibad ipost where it: "items = ipre @ ibad # ipost"
    and p: "list_all2 (repr hb) ipre pre" and b: "repr hb ibad bad"
    by (auto simp: list_all2_append2 list_all2_Cons2)
  from loop_prefix [OF p assms(2,4,5), of "ibad # ipost"] obtain X'
    where "get_sources_loop iid isc (VRef (length hb + i)) items (hb @ X) =
           get_sources_loop iid isc (VRef (length hb + i)) (ibad # ipost) (hb @ X')"
    unfolding it by blast
  with loop_raises_step [OF b assms(3), of i ipost X'] show ?thesis by simp
qed

lemma get_ids_raises:
  assumes r: "repr h (sr_json self) body"
    and p: "jpath body [''hits'', ''hits''] = Some (JArr (pre @ bad # post))"
    and ok: "\<forall>hit \<in> set pre. jget hit ''_id'' \<noteq> None"
    and bad: "is_obj bad" "jget bad ''_id'' = None"
  shows "fst (get_ids self h) = Inl KeyError"
proof -
  from hits_run [OF r p, of "[]"] obtain v
    where 1: "hits self h = (Inr v, h @ [ODict [], OList []])"
      and v: "repr h v (JArr (pre @ bad # post))" by auto
  from iter_array [OF v, of "[ODict [], OList []]"] obtain items
    where 2: "py_iter v (h @ [ODict [], OList []]) = (Inr items, h @ [ODict [], OList []])"
      and l: "list_all2 (repr h) items (pre @ bad # post)" by blast
  from ids_of_raises [OF l ok bad, of 2 "[ODict [], OList [], OList []]" "[]"]
  obtain H' where "ids_of (VRef (length h + 2)) items (h @ [ODict [], OList [], OList []]) =
      (Inl KeyError, H')"
    by (cases "ids_of (VRef (length h + 2)) items (h @ [ODict [], OList [], OList []])") auto
  with 1 2 show ?thesis
    by (simp add: get_ids_def seq_def py_new_eq)
qed

lemma get_sources_raises:
  assumes r: "repr h (sr_json self) body"
    and p: "jpath body [''hits'', ''hits''] = Some (JArr (pre @ bad # post))"
    and ok: "\<forall>hit \<in> set pre. reads_ok iid isc hit"
    and bad: "lacks iid isc bad"
  shows "fst (get_sources iid isc self h) = Inl KeyError"
proof (cases "iid \<or> isc")
  case False
  from hits_run [OF r p, of "[]"] obtain v
    where 1: "hits self h = (Inr v, h @ [ODict [], OList []])"
      and v: "repr h v (JArr (pre @ bad # post))" by auto
  from iter_array [OF v, of "[ODict [], OList []]"] obtain items
    where 2: "py_iter v (h @ [ODict [], OList []]) = (Inr items, h @ [ODict [], OList []])"
      and l: "list_all2 (repr h) items (pre @ bad # post)" by blast
  from ok False have ok': "\<forall>hit \<in> set pre. jget hit ''_source'' \<noteq> None"
    by (simp add: reads_ok_def)
  from bad False have b: "is_obj bad" "jget bad ''_source'' = None"
    by (auto simp: lacks_def split: option.splits json.splits)
  from sources_of_raises [OF l ok' b, of 2 "[ODict [], OList [], OList []]" "[]"]
  obtain H' where "sources_of (VRef (length h + 2)) items (h @ [ODict [], OList [], OList []]) =
      (Inl KeyError, H')"
    by (cases "sources_of (VRef (length h + 2)) items (h @ [ODict [], OList [], OList []])") auto
  with 1 2 False show ?thesis
    by (simp add: get_sources_def seq_def py_new_eq)
next
  case True
  from hits_run [OF r p, of "[OList []]"] obtain v
    where 1: "hits self (h @ [OList []]) = (Inr v, h @ [OList [], ODict [], OList []])"
      and v: "repr h v (JArr (pre @ bad # post))" by auto
  from iter_array [OF v, of "[OList [], ODict [], OList []]"] obtain items
    where 2: "py_iter v (h @ [OList [], ODict [], OList []]) =
          (Inr items, h @ [OList [], ODict [], OList []])"
      and l: "list_all2 (repr h) items (pre @ bad # post)" by blast
  from ok True have ok': "\<forall>hit \<in> set pre. source_with iid isc hit \<noteq> None"
    by (simp add: reads_ok_def)
  from loop_raises [OF l ok' bad, of 0 "[OList [], ODict [], OList []]" "[]"]
  obtain H' where "get_sources_loop iid isc (VRef (length h)) items
          (h @ [OList [], ODict [], OList []]) = (Inl KeyError, H')"
    by (cases "get_sources_loop iid isc (VRef (length h)) items
          (h @ [OList [], ODict [], OList []])") auto
  with 1 2 True show ?thesis
    by (auto simp: get_sources_def seq_def py_new_eq)
qed

section \<open>Defaults for missing keys\<close>

lemma hits_absent:
  assumes "repr h (sr_json self) body" and a: "missing_key body [''hits'', ''hits'']"
  shows "hits self h = (Inr (VRef (Suc (length h))), h @ [ODict [], OList []])"
proof -
  from a have ob: "is_obj body" by simp
  from get_hits_section [OF assms(1) ob] obtain x
    where s1: "py_get_new (sr_json self) ''hits'' (ODict []) h = (Inr x, h @ [ODict []])"
      and x: "case jget body ''hits'' of Some hh \<Rightarrow> repr h x hh
                | None \<Rightarrow> deref (h @ [ODict []]) x = Some (ODict [])" by blast
  from a have n: "case jget body ''hits'' of Some hh \<Rightarrow> is_obj hh \<and> jget hh ''hits'' = None
                    | None \<Rightarrow> True"
    by (auto split: option.splits)
  with x have "case jget body ''hits'' of Some hh \<Rightarrow> repr h x hh \<and> is_obj hh
                | None \<Rightarrow> deref (h @ [ODict []]) x = Some (ODict [])"
    by (auto split: option.splits)
  from second_lookup [OF this, where k = "''hits''" and ob = "OList []"] obtain y
    where s2: "py_get_new x ''hits'' (OList []) (h @ [ODict []]) = (Inr y, h @ [ODict [], OList []])"
      and y: "case (case jget body ''hits'' of Some hh \<Rightarrow> jget hh ''hits'' | None \<Rightarrow> None) of
                Some c \<Rightarrow> repr h y c | None \<Rightarrow> y = VRef (Suc (length h))" by blast
  from n have "(case jget body ''hits'' of Some hh \<Rightarrow> jget hh ''hits'' | None \<Rightarrow> None) = None"
    by (auto split: option.splits)
  with y have "y = VRef (Suc (length h))" by simp
  with s1 s2 show ?thesis by (simp add: hits_def seq_def)
qed

lemma explanation_run:
  assumes "repr h (er_json self) ebody" and "is_obj ebody"
  shows "\<exists>x. explanation self h = (Inr x, h @ [ODict []]) \<and>
           (case jget ebody ''explanation'' of
              Some e \<Rightarrow> repr h x e | None \<Rightarrow> x = VRef (length h))"
  using py_get_new_repr [OF assms, of "''explanation''" "ODict []" "[]"]
  by (auto simp: explanation_def split: option.splits)

lemma score_absent:
  assumes "repr h (er_json self) ebody" and a: "missing_key ebody [''explanation'', ''value'']"
  shows "score self h = (Inr VNone, h @ [ODict []])"
proof -
  from a have ob: "is_obj ebody" by simp
  from explanation_run [OF assms(1) ob] obtain x
    where s1: "explanation self h = (Inr x, h @ [ODict []])"
      and x: "case jget ebody ''explanation'' of
                Some e \<Rightarrow> repr h x e | None \<Rightarrow> x = VRef (length h)" by blast
  have "py_get x ''value'' VNone (h @ [ODict []]) = (Inr VNone, h @ [ODict []])"
  proof (cases "jget ebody ''explanation''")
    case None
    with x have "x = VRef (length h)" by simp
    with py_get_empty [OF deref_last [of h "ODict []"]] show ?thesis by simp
  next
    case (Some e)
    with x have r: "repr h x e" by simp
    from Some a have "is_obj e" and "jget e ''value'' = None" by (auto split: option.splits)
    from py_get_repr [OF r this(1), of "''value''" VNone "[ODict []]"] this(2)
    show ?thesis by simp
  qed
  with s1 show ?thesis by (simp add: score_def seq_def)
qed

text \<open>
  \<^verbatim>\<open>get_breakdown\<close> on a body without \<^verbatim>\<open>explanation\<close> walks the new empty mapping: one
  row, at depth 0, with the value 0 and the empty description.
\<close>

lemma get_breakdown_missing:
  assumes r: "repr h (er_json self) ebody" and a: "missing_key ebody [''explanation'']"
  shows "get_breakdown (Suc n) self h =
     Some (Inr (VRef (length h)),
           h @ [OList [VTuple [VInt 0, VInt 0, VStr '''']], ODict [], OList []])"
proof -
  from a have ob: "is_obj ebody" and e: "jget ebody ''explanation'' = None"
    by (auto split: option.splits)
  from repr_lookup [OF r ob, of "''explanation''"] e
  obtain kvs where d: "deref h (er_json self) = Some (ODict kvs)"
    and m: "map_of kvs ''explanation'' = None" by auto
  from get_breakdown_unexplained [OF d refl m, of n "[]"] show ?thesis by simp
qed

text \<open>The rows of a node that has none of the three keys.\<close>

lemma bare_node_rows:
  assumes "list_all2 (row_repr h) rows (preorder 0 t)" and "node_ok t"
    and "jget t ''value'' = None" and "jget t ''description'' = None"
    and "jget t ''details'' = None"
  shows "rows = [VTuple [VInt 0, VInt 0, VStr '''']]"
proof -
  from assms(2) obtain ms where t: "t = JObj ms" by (cases t) auto
  with assms(3-5) have "preorder 0 t = [(0, JInt 0, JStr '''')]"
    by (simp add: field_or_def details_of_def)
  with assms(1) obtain r where rows: "rows = [r]" and r: "row_repr h r (0, JInt 0, JStr '''')"
    by (auto simp: list_all2_Cons2)
  from r have "r = VTuple [VInt 0, VInt 0, VStr '''']"
    by (rule row_repr.elims) auto
  with rows show ?thesis by simp
qed

text \<open>
  C2 as the spec states it fails, in two ways. \<^verbatim>\<open>get_ids\<close> and \<^verbatim>\<open>get_sources\<close> do not
  default: on a response whose only hit record is empty they raise \<open>KeyError\<close>. And in
  the other accessors a field can be absent because a value on the way to it is not a
  mapping: \<^verbatim>\<open>hits\<close> on \<^verbatim>\<open>{"hits": null}\<close>, and \<^verbatim>\<open>score\<close> and \<^verbatim>\<open>get_breakdown\<close> on
  \<^verbatim>\<open>{"explanation": 5}\<close>, raise \<open>AttributeError\<close>. So does \<^verbatim>\<open>get_sources\<close> with
  \<^verbatim>\<open>include_id\<close> on a hit without \<^verbatim>\<open>_id\<close> whose \<^verbatim>\<open>_source\<close> is a string: the error
  there is not \<open>KeyError\<close>, \<^verbatim>\<open>copy()\<close> fails before \<^verbatim>\<open>_id\<close> is read.
\<close>

theorem get_ids_get_sources_counterexample:
  "fst (get_ids (wrap_search ex_bare) (store_of ex_bare)) = Inl KeyError \<and>
   fst (get_sources False False (wrap_search ex_bare) (store_of ex_bare)) = Inl KeyError \<and>
   fst (get_sources True True (wrap_search ex_bare) (store_of ex_bare)) = Inl KeyError \<and>
   jpath ex_null_hits [''hits'', ''hits''] = None \<and>
   fst (hits (wrap_search ex_null_hits) (store_of ex_null_hits)) = Inl AttributeError \<and>
   jpath ex_plain_explanation [''explanation'', ''value''] = None \<and>
   fst (score (wrap_explain ex_plain_explanation) (store_of ex_plain_explanation)) =
     Inl AttributeError \<and>
   map_option fst (get_breakdown 2 (wrap_explain ex_plain_explanation)
       (store_of ex_plain_explanation)) = Some (Inl AttributeError) \<and>
   jpath ex_text_source [''hits'', ''hits''] = Some (JArr [JObj [(''_source'', JStr ''s'')]]) \<and>
   fst (get_sources True False (wrap_search ex_text_source) (store_of ex_text_source)) =
     Inl AttributeError"
  by code_simp

text \<open>
  C2, as amended. In \<^verbatim>\<open>hits\<close>, \<^verbatim>\<open>total\<close>, \<^verbatim>\<open>explanation\<close> and \<^verbatim>\<open>score\<close> a key of the
  path read that is missing from the mapping reached at its level yields the default and
  no error: a new empty list for \<^verbatim>\<open>hits\<close>, 0 for \<^verbatim>\<open>total\<close>, a new empty mapping for
  \<^verbatim>\<open>explanation\<close>, \<^verbatim>\<open>None\<close> for \<^verbatim>\<open>score\<close>. \<^verbatim>\<open>get_breakdown\<close> returns a new list with the
  single row \<open>(0, 0, '')\<close> when the body has no \<^verbatim>\<open>explanation\<close>; on an explanation tree
  whose nodes are mappings, with a list under \<^verbatim>\<open>details\<close> where they have that key, it
  returns a new list with the pre-order rows, in which a node without \<^verbatim>\<open>value\<close> has the
  value 0, a node without \<^verbatim>\<open>description\<close> the empty description and a node without
  \<^verbatim>\<open>details\<close> no children; a root with none of the three gives the single row
  \<open>(0, 0, '')\<close>. \<^verbatim>\<open>get_sources\<close> and \<^verbatim>\<open>get_ids\<close> do not default. After hit records
  that have an \<^verbatim>\<open>_id\<close>, \<^verbatim>\<open>get_ids\<close> raises \<open>KeyError\<close> at a hit record without
  \<^verbatim>\<open>_id\<close>. After hit records that have all that is read of them (a \<^verbatim>\<open>_source\<close>; with a
  flag set, a mapping as \<^verbatim>\<open>_source\<close> and the \<^verbatim>\<open>_id\<close> or \<^verbatim>\<open>_score\<close> asked for),
  \<^verbatim>\<open>get_sources\<close> raises \<open>KeyError\<close> at a hit record that has no \<^verbatim>\<open>_source\<close>, or that
  has a mapping as \<^verbatim>\<open>_source\<close> and not the \<^verbatim>\<open>_id\<close> (with \<^verbatim>\<open>include_id\<close>) or the
  \<^verbatim>\<open>_score\<close> (with \<^verbatim>\<open>include_score\<close>) to be merged into it.
\<close>

theorem defaults_and_key_errors:
  assumes rs: "repr h (sr_json sr) body" and re: "repr h (er_json er) ebody"
  shows "(missing_key body [''hits'', ''hits''] \<longrightarrow>
            hits sr h = (Inr (VRef (Suc (length h))), h @ [ODict [], OList []])) \<and>
         (missing_key body [''hits'', ''total'', ''value''] \<longrightarrow>
            total sr h = (Inr (VInt 0), h @ [ODict [], ODict []])) \<and>
         (missing_key ebody [''explanation''] \<longrightarrow>
            explanation er h = (Inr (VRef (length h)), h @ [ODict []])) \<and>
         (missing_key ebody [''explanation'', ''value''] \<longrightarrow>
            score er h = (Inr VNone, h @ [ODict []])) \<and>
         (missing_key ebody [''explanation''] \<longrightarrow>
            get_breakdown (Suc n) er h =
              Some (Inr (VRef (length h)),
                    h @ [OList [VTuple [VInt 0, VInt 0, VStr '''']], ODict [], OList []])) \<and>
         (\<forall>t. jget ebody ''explanation'' = Some t \<and> node_ok t \<and> height t \<le> n \<longrightarrow>
            (\<exists>rows h'. get_breakdown n er h = Some (Inr (VRef (length h)), h') \<and>
               h' ! length h = OList rows \<and>
               list_all2 (row_repr h') rows (preorder 0 t) \<and>
               (jget t ''value'' = None \<and> jget t ''description'' = None \<and>
                jget t ''details'' = None \<longrightarrow>
                  rows = [VTuple [VInt 0, VInt 0, VStr '''']]))) \<and>
         (\<forall>pre bad post.
            jpath body [''hits'', ''hits''] = Some (JArr (pre @ bad # post)) \<and>
            (\<forall>hit \<in> set pre. reads_ok include_id include_score hit) \<and>
            lacks include_id include_score bad \<longrightarrow>
            fst (get_sources include_id include_score sr h) = Inl KeyError) \<and>
         (\<forall>pre bad post.
            jpath body [''hits'', ''hits''] = Some (JArr (pre @ bad # post)) \<and>
            (\<forall>hit \<in> set pre. jget hit ''_id'' \<noteq> None) \<and>
            is_obj bad \<and> jget bad ''_id'' = None \<longrightarrow>
            fst (get_ids sr h) = Inl KeyError)"
proof (intro conjI allI impI)
  assume "missing_key body [''hits'', ''hits'']"
  then show "hits sr h = (Inr (VRef (Suc (length h))), h @ [ODict [], OList []])"
    by (rule hits_absent [OF rs])
next
  assume "missing_key body [''hits'', ''total'', ''value'']"
  then show "total sr h = (Inr (VInt 0), h @ [ODict [], ODict []])"
    by (rule total_absent [OF rs])
next
  assume a: "missing_key ebody [''explanation'']"
  then have "is_obj ebody" and "jget ebody ''explanation'' = None"
    by (auto split: option.splits)
  with explanation_run [OF re] show "explanation er h = (Inr (VRef (length h)), h @ [ODict []])"
    by auto
next
  assume "missing_key ebody [''explanation'', ''value'']"
  then show "score er h = (Inr VNone, h @ [ODict []])"
    by (rule score_absent [OF re])
next
  assume "missing_key ebody [''explanation'']"
  then show "get_breakdown (Suc n) er h =
      Some (Inr (VRef (length h)),
            h @ [OList [VTuple [VInt 0, VInt 0, VStr '''']], ODict [], OList []])"
    by (rule get_breakdown_missing [OF re])
next
  fix t
  assume a: "jget ebody ''explanation'' = Some t \<and> node_ok t \<and> height t \<le> n"
  then have e: "jget ebody ''explanation'' = Some t" and ok: "node_ok t"
    and ht: "height t \<le> n" by simp_all
  from get_breakdown_tree [OF re e ok ht] obtain rows h'
    where g: "get_breakdown n er h = Some (Inr (VRef (length h)), h')"
      and l: "h' ! length h = OList rows"
      and p: "list_all2 (row_repr h') rows (preorder 0 t)" by blast
  have "rows = [VTuple [VInt 0, VInt 0, VStr '''']]"
    if "jget t ''value'' = None \<and> jget t ''description'' = None \<and> jget t ''details'' = None"
    using bare_node_rows [OF p ok] that by simp
  with g l p
  show "\<exists>rows h'. get_breakdown n er h = Some (Inr (VRef (length h)), h') \<and>
               h' ! length h = OList rows \<and>
               list_all2 (row_repr h') rows (preorder 0 t) \<and>
               (jget t ''value'' = None \<and> jget t ''description'' = None \<and>
                jget t ''details'' = None \<longrightarrow>
                  rows = [VTuple [VInt 0, VInt 0, VStr '''']])"
    by blast
next
  fix pre bad post
  assume "jpath body [''hits'', ''hits''] = Some (JArr (pre @ bad # post)) \<and>
            (\<forall>hit \<in> set pre. reads_ok include_id include_score hit) \<and>
            lacks include_id include_score bad"
  then show "fst (get_sources include_id include_score sr h) = Inl KeyError"
    using get_sources_raises [OF rs] by blast
next
  fix pre bad post
  assume "jpath body [''hits'', ''hits''] = Some (JArr (pre @ bad # post)) \<and>
            (\<forall>hit \<in> set pre. jget hit ''_id'' \<noteq> None) \<and>
            is_obj bad \<and> jget bad ''_id'' = None"
  then show "fst (get_ids sr h) = Inl KeyError"
    using get_ids_raises [OF rs] by blast
qed

theorem defaults_and_key_errors_witness:
  "repr (store_of ex_empty) (sr_json (wrap_search ex_empty)) ex_empty \<and>
   repr (store_of ex_empty) (er_json (wrap_explain ex_empty)) ex_empty \<and>
   missing_key ex_empty [''hits'', ''hits''] \<and>
   missing_key ex_empty [''hits'', ''total'', ''value''] \<and>
   missing_key ex_empty [''explanation''] \<and>
   missing_key ex_empty [''explanation'', ''value''] \<and>
   hits (wrap_search ex_empty) (store_of ex_empty) =
     (Inr (VRef 2), [ODict [(''took'', VInt 3)], ODict [], OList []]) \<and>
   total (wrap_search ex_empty) (store_of ex_empty) =
     (Inr (VInt 0), [ODict [(''took'', VInt 3)], ODict [], ODict []]) \<and>
   explanation (wrap_explain ex_empty) (store_of ex_empty) =
     (Inr (VRef 1), [ODict [(''took'', VInt 3)], ODict []]) \<and>
   score (wrap_explain ex_empty) (store_of ex_empty) =
     (Inr VNone, [ODict [(''took'', VInt 3)], ODict []]) \<and>
   get_breakdown 1 (wrap_explain ex_empty) (store_of ex_empty) =
     Some (Inr (VRef 1), [ODict [(''took'', VInt 3)],
                          OList [VTuple [VInt 0, VInt 0, VStr '''']], ODict [], OList []]) \<and>
   repr (store_of ex_sparse) (er_json (wrap_explain ex_sparse)) ex_sparse \<and>
   jget ex_sparse ''explanation'' = Some (JObj [(''details'', JArr [JObj []])]) \<and>
   node_ok (JObj [(''details'', JArr [JObj []])]) \<and>
   height (JObj [(''details'', JArr [JObj []])]) \<le> 2 \<and>
   preorder 0 (JObj [(''details'', JArr [JObj []])]) =
     [(0, JInt 0, JStr ''''), (1, JInt 0, JStr '''')] \<and>
   (\<exists>h'. get_breakdown 2 (wrap_explain ex_sparse) (store_of ex_sparse) =
           Some (Inr (VRef 4), h') \<and>
         h' ! 4 = OList [VTuple [VInt 0, VInt 0, VStr ''''], VTuple [VInt 1, VInt 0, VStr '''']]) \<and>
   repr (store_of (JObj [(''explanation'', JObj [])]))
     (er_json (wrap_explain (JObj [(''explanation'', JObj [])])))
     (JObj [(''explanation'', JObj [])]) \<and>
   jget (JObj [(''explanation'', JObj [])]) ''explanation'' = Some (JObj []) \<and>
   node_ok (JObj []) \<and> height (JObj []) \<le> 1 \<and>
   jget (JObj []) ''value'' = None \<and> jget (JObj []) ''description'' = None \<and>
   jget (JObj []) ''details'' = None \<and>
   (\<exists>h'. get_breakdown 1 (wrap_explain (JObj [(''explanation'', JObj [])]))
             (store_of (JObj [(''explanation'', JObj [])])) = Some (Inr (VRef 2), h') \<and>
         h' ! 2 = OList [VTuple [VInt 0, VInt 0, VStr '''']]) \<and>
   repr (store_of ex_second_anon) (sr_json (wrap_search ex_second_anon)) ex_second_anon \<and>
   jpath ex_second_anon [''hits'', ''hits''] = Some (JArr ([ex_hit_ok] @ ex_hit_anon # [])) \<and>
   reads_ok True False ex_hit_ok \<and> jget ex_hit_ok ''_id'' \<noteq> None \<and>
   lacks True False ex_hit_anon \<and> is_obj ex_hit_anon \<and> jget ex_hit_anon ''_id'' = None \<and>
   fst (get_sources True False (wrap_search ex_second_anon) (store_of ex_second_anon)) =
     Inl KeyError \<and>
   fst (get_ids (wrap_search ex_second_anon) (store_of ex_second_anon)) = Inl KeyError"
proof -
  have s: "store_of ex_empty = [ODict [(''took'', VInt 3)]]" by code_simp
  have r1: "repr (store_of ex_empty) (sr_json (wrap_search ex_empty)) ex_empty" by code_simp
  have r2: "repr (store_of ex_empty) (er_json (wrap_explain ex_empty)) ex_empty" by code_simp
  have a: "missing_key ex_empty [''hits'', ''hits'']"
    "missing_key ex_empty [''hits'', ''total'', ''value'']"
    "missing_key ex_empty [''explanation'']"
    "missing_key ex_empty [''explanation'', ''value'']" by code_simp+
  note A = defaults_and_key_errors [OF r1 r2, where n = 0 and include_id = True
      and include_score = True]
  from A a s have A': "hits (wrap_search ex_empty) (store_of ex_empty) =
       (Inr (VRef 2), [ODict [(''took'', VInt 3)], ODict [], OList []])"
    "total (wrap_search ex_empty) (store_of ex_empty) =
       (Inr (VInt 0), [ODict [(''took'', VInt 3)], ODict [], ODict []])"
    "explanation (wrap_explain ex_empty) (store_of ex_empty) =
       (Inr (VRef 1), [ODict [(''took'', VInt 3)], ODict []])"
    "score (wrap_explain ex_empty) (store_of ex_empty) =
       (Inr VNone, [ODict [(''took'', VInt 3)], ODict []])"
    "get_breakdown 1 (wrap_explain ex_empty) (store_of ex_empty) =
       Some (Inr (VRef 1), [ODict [(''took'', VInt 3)],
                            OList [VTuple [VInt 0, VInt 0, VStr '''']], ODict [], OList []])"
    by simp_all
  let ?t = "JObj [(''details'', JArr [JObj []])]"
  have r3: "repr (store_of ex_sparse) (er_json (wrap_explain ex_sparse)) ex_sparse" by code_simp
  have r3': "repr (store_of ex_sparse) (sr_json (wrap_search ex_sparse)) ex_sparse" by code_simp
  have b: "jget ex_sparse ''explanation'' = Some ?t" "node_ok ?t" "height ?t \<le> 2"
    by code_simp+
  have pre: "preorder 0 ?t = [(0, JInt 0, JStr ''''), (1, JInt 0, JStr '''')]" by code_simp
  have len: "length (store_of ex_sparse) = 4" by code_simp
  note B = defaults_and_key_errors [OF r3' r3, where n = 2 and include_id = True
      and include_score = True]
  from B b len obtain rows h' where
    g: "get_breakdown 2 (wrap_explain ex_sparse) (store_of ex_sparse) = Some (Inr (VRef 4), h')"
    and l: "h' ! 4 = OList rows" and p: "list_all2 (row_repr h') rows (preorder 0 ?t)"
    by auto
  from p obtain r0 r1 where rows: "rows = [r0, r1]"
    and q0: "row_repr h' r0 (0, JInt 0, JStr '''')"
    and q1: "row_repr h' r1 (1, JInt 0, JStr '''')"
    unfolding pre by (auto simp: list_all2_Cons2)
  from q0 have "r0 = VTuple [VInt 0, VInt 0, VStr '''']" by (rule row_repr.elims) auto
  moreover from q1 have "r1 = VTuple [VInt 1, VInt 0, VStr '''']" by (rule row_repr.elims) auto
  ultimately have B': "\<exists>h'. get_breakdown 2 (wrap_explain ex_sparse) (store_of ex_sparse) =
           Some (Inr (VRef 4), h') \<and>
         h' ! 4 = OList [VTuple [VInt 0, VInt 0, VStr ''''], VTuple [VInt 1, VInt 0, VStr '''']]"
    using g l rows by simp
  let ?e = "JObj [(''explanation'', JObj [])]"
  have r5: "repr (store_of ?e) (er_json (wrap_explain ?e)) ?e" by code_simp
  have r5': "repr (store_of ?e) (sr_json (wrap_search ?e)) ?e" by code_simp
  have d: "jget ?e ''explanation'' = Some (JObj [])" "node_ok (JObj [])"
    "height (JObj []) \<le> 1" "jget (JObj []) ''value'' = None"
    "jget (JObj []) ''description'' = None" "jget (JObj []) ''details'' = None"
    by code_simp+
  have len5: "length (store_of ?e) = 2" by code_simp
  note D = defaults_and_key_errors [OF r5' r5, where n = 1 and include_id = True
      and include_score = True]
  from D d len5 have D': "\<exists>h'. get_breakdown 1 (wrap_explain ?e) (store_of ?e) =
           Some (Inr (VRef 2), h') \<and> h' ! 2 = OList [VTuple [VInt 0, VInt 0, VStr '''']]"
    by auto
  have r6: "repr (store_of ex_second_anon) (sr_json (wrap_search ex_second_anon)) ex_second_anon"
    by code_simp
  have r6': "repr (store_of ex_second_anon) (er_json (wrap_explain ex_second_anon)) ex_second_anon"
    by code_simp
  have e: "jpath ex_second_anon [''hits'', ''hits''] = Some (JArr ([ex_hit_ok] @ ex_hit_anon # []))"
    "reads_ok True False ex_hit_ok" "jget ex_hit_ok ''_id'' \<noteq> None"
    "lacks True False ex_hit_anon" "is_obj ex_hit_anon" "jget ex_hit_anon ''_id'' = None"
    by code_simp+
  from e(2,3) have e': "\<forall>hit \<in> set [ex_hit_ok]. reads_ok True False hit"
    "\<forall>hit \<in> set [ex_hit_ok]. jget hit ''_id'' \<noteq> None" by simp_all
  note E = defaults_and_key_errors [OF r6 r6', where n = 0 and include_id = True
      and include_score = False]
  from E e(1,4) e'(1)
  have E1: "fst (get_sources True False (wrap_search ex_second_anon) (store_of ex_second_anon)) =
     Inl KeyError" by blast
  from E e(1,5,6) e'(2)
  have E2: "fst (get_ids (wrap_search ex_second_anon) (store_of ex_second_anon)) = Inl KeyError"
    by blast
  from r1 r2 a A' r3 b pre B' r5 d D' r6 e E1 E2 show ?thesis by blast
qed

end
